theory Spec2Isabelle
  imports Complex_Main "HOL-Library.Sublist" "HOL-Library.Multiset"
begin

section \<open>Python strings\<close>

text \<open>
  A Python \<open>str\<close> is modelled as a \<open>string\<close> (a list of 8-bit characters), so the
  development covers ASCII text: \<open>str.lower()\<close> maps \<open>A\<close>..\<open>Z\<close> to \<open>a\<close>..\<open>z\<close> and
  leaves every other character alone, and \<open>str.isspace()\<close> holds of the ten ASCII
  characters Python counts as whitespace.
\<close>

definition lower_char :: "char \<Rightarrow> char" where
  "lower_char c =
     (let n = (of_char c :: nat) in if 65 \<le> n \<and> n \<le> 90 then char_of (n + 32) else c)"

definition lower :: "string \<Rightarrow> string" where
  "lower s = map lower_char s"

definition isspace :: "char \<Rightarrow> bool" where
  "isspace c = (c \<in> set [CHR 0x09, CHR 0x0A, CHR 0x0B, CHR 0x0C, CHR 0x0D,
                          CHR 0x1C, CHR 0x1D, CHR 0x1E, CHR 0x1F, CHR '' ''])"

text \<open>\<open>p in s\<close> on strings: \<open>p\<close> occurs in \<open>s\<close> as a contiguous block.\<close>

fun str_contains :: "string \<Rightarrow> string \<Rightarrow> bool" where
  "str_contains [] p = (p = [])"
| "str_contains (c # cs) p = (prefix p (c # cs) \<or> str_contains cs p)"

text \<open>\<open>s.split()\<close>: the maximal runs of non-whitespace characters, in order.\<close>

fun split_ws :: "string \<Rightarrow> string \<Rightarrow> string list" where
  "split_ws cur [] = (if cur = [] then [] else [cur])"
| "split_ws cur (c # cs) =
     (if isspace c then (if cur = [] then split_ws [] cs else cur # split_ws [] cs)
      else split_ws (cur @ [c]) cs)"

definition py_split :: "string \<Rightarrow> string list" where
  "py_split s = split_ws [] s"

text \<open>\<open>sep.join(parts)\<close>.\<close>

fun join :: "string \<Rightarrow> string list \<Rightarrow> string" where
  "join sep [] = []"
| "join sep [p] = p"
| "join sep (p # q # ps) = p @ sep @ join sep (q # ps)"

text \<open>\<open>xs[:k]\<close> for a Python integer \<open>k\<close>: a negative bound counts from the end.\<close>

definition slice_to :: "int \<Rightarrow> 'a list \<Rightarrow> 'a list" where
  "slice_to k xs = (if 0 \<le> k then take (nat k) xs else take (length xs - nat (- k)) xs)"

section \<open>Query rewriter (rag/rewrite.py)\<close>

definition pronouns :: "string list" where
  "pronouns = [''it'', ''that'', ''this'', ''they'', ''them'', ''second'', ''first'']"

definition rewrite_query :: "string \<Rightarrow> string list \<Rightarrow> string" where
  "rewrite_query query history =
     (if history = [] then query
      else let last_msg = last history in
        if list_ex (\<lambda>p. str_contains (lower query) p) pronouns
        then query @ '' (context: '' @ last_msg @ '')''
        else query)"

section \<open>Metrics collector (realtime.py)\<close>

datatype py_error = ZeroDivisionError | IndexError | ExternalError string

datatype json = JInt int | JFloat real

record MetricsCollector =
  runs :: int
  total_retrieval_time :: real
  total_time :: real

definition truediv :: "real \<Rightarrow> int \<Rightarrow> py_error + real" where
  "truediv a b = (if b = 0 then Inl ZeroDivisionError else Inr (a / real_of_int b))"

definition add :: "MetricsCollector \<Rightarrow> real \<Rightarrow> real \<Rightarrow> MetricsCollector" where
  "add m retrieval_time elapsed =
     m\<lparr>runs := runs m + 1,
       total_retrieval_time := total_retrieval_time m + retrieval_time,
       total_time := total_time m + elapsed\<rparr>"

definition summary :: "MetricsCollector \<Rightarrow> py_error + (string \<times> json) list" where
  "summary m =
     (if runs m = 0 then Inr []
      else case truediv (total_retrieval_time m) (runs m) of
          Inl e \<Rightarrow> Inl e
        | Inr avg_r \<Rightarrow>
            (case truediv (total_time m) (runs m) of
               Inl e \<Rightarrow> Inl e
             | Inr avg_t \<Rightarrow>
                 Inr [(''runs'', JInt (runs m)),
                      (''avg_retrieval_time'', JFloat avg_r),
                      (''avg_total_time'', JFloat avg_t)]))"

section \<open>Voice postprocessing (postprocess.py)\<close>

text \<open>\<open>re.sub(r"\s+", " ", text)\<close>: every maximal run of whitespace becomes one space.\<close>

function re_sub_ws :: "string \<Rightarrow> string" where
  "re_sub_ws [] = []"
| "re_sub_ws (c # cs) =
     (if isspace c then CHR '' '' # re_sub_ws (dropWhile isspace cs) else c # re_sub_ws cs)"
  by pat_completeness auto
termination
  by (relation "measure length") (auto simp: le_imp_less_Suc length_dropWhile_le)

definition strip :: "string \<Rightarrow> string" where
  "strip s = rev (dropWhile isspace (rev (dropWhile isspace s)))"

definition sentence_end :: "char \<Rightarrow> bool" where
  "sentence_end c = (c = CHR ''.'' \<or> c = CHR ''!'' \<or> c = CHR ''?'')"

text \<open>
  \<open>re.split(r'(?<=[.!?]) +', text)\<close>: scanning from the left, a run of spaces whose
  first space follows one of \<open>.\<close>, \<open>!\<close>, \<open>?\<close> is a separator; \<open>cur\<close> is the part
  read so far. After a separator the next character is not a space, and the
  character before it is one, so an empty \<open>cur\<close> never starts a separator.
\<close>

function re_split_sentences :: "string \<Rightarrow> string \<Rightarrow> string list" where
  "re_split_sentences cur [] = [cur]"
| "re_split_sentences cur (c # cs) =
     (if c = CHR '' '' \<and> cur \<noteq> [] \<and> sentence_end (last cur)
      then cur # re_split_sentences [] (dropWhile (\<lambda>x. x = CHR '' '') cs)
      else re_split_sentences (cur @ [c]) cs)"
  by pat_completeness auto
termination
  by (relation "measure (\<lambda>(cur, s). length s)")
     (auto simp: le_imp_less_Suc length_dropWhile_le)

definition truncate_sentence :: "int \<Rightarrow> string \<Rightarrow> string" where
  "truncate_sentence max_sentence_words p =
     (let words = py_split p in
      if int (length words) > max_sentence_words
      then join '' '' (slice_to max_sentence_words words) @ ''...''
      else p)"

definition postprocess_for_voice :: "string \<Rightarrow> int \<Rightarrow> string" where
  "postprocess_for_voice text max_sentence_words =
     (let text1 = strip (re_sub_ws text);
          parts = re_split_sentences [] text1
      in join '' '' (map (truncate_sentence max_sentence_words) parts))"

section \<open>Hybrid retriever (rag/retriever.py)\<close>

text \<open>
  The module state: the FAISS index (its \<open>search\<close> returns the rows \<open>D[0]\<close> and
  \<open>I[0]\<close>), the loaded passages, the sentence embedder, and the \<open>rank_bm25\<close> scorer
  when that package imports (\<open>get_scores\<close> of a tokenised corpus on the query
  tokens). Each external call may raise. Scores are Python floats, modelled as
  reals (no NaN).
\<close>

record retriever =
  r_index :: "(real list \<Rightarrow> int \<Rightarrow> py_error + real list \<times> int list) option"
  r_docs :: "string list"
  r_embedder :: "(string \<Rightarrow> py_error + real list) option"
  r_bm25 :: "(string list list \<Rightarrow> string list \<Rightarrow> py_error + real list) option"

type_synonym scored = "real \<times> string"

text \<open>The loop over \<open>zip(D[0], I[0])\<close> of the vector path.\<close>

fun vector_results :: "string list \<Rightarrow> (real \<times> int) list \<Rightarrow> scored list" where
  "vector_results ds [] = []"
| "vector_results ds ((score, idx) # rest) =
     (if idx < 0 \<or> idx \<ge> int (length ds) then vector_results ds rest
      else (- score, ds ! nat idx) # vector_results ds rest)"

definition vector_search :: "retriever \<Rightarrow> string \<Rightarrow> int \<Rightarrow> (py_error + scored list) option" where
  "vector_search R query k =
     (case (r_index R, r_embedder R) of
        (Some idx, Some emb) \<Rightarrow>
          Some (case emb query of
              Inl e \<Rightarrow> Inl e
            | Inr v \<Rightarrow>
                (case idx v k of
                   Inl e \<Rightarrow> Inl e
                 | Inr (D, I) \<Rightarrow> Inr (vector_results (r_docs R) (zip D I))))
      | _ \<Rightarrow> None)"

definition bm25_search :: "retriever \<Rightarrow> string \<Rightarrow> int \<Rightarrow> (py_error + scored list) option" where
  "bm25_search R query k =
     (case r_bm25 R of
        Some get_scores \<Rightarrow>
          if r_docs R = [] then None
          else Some (case get_scores (map py_split (r_docs R)) (py_split query) of
              Inl e \<Rightarrow> Inl e
            | Inr scores \<Rightarrow>
                (let ranked = slice_to k (sort_key (\<lambda>x. - snd x) (enumerate 0 scores))
                 in if list_all (\<lambda>x. fst x < length (r_docs R)) ranked
                    then Inr (map (\<lambda>(i, s). (s, r_docs R ! i)) ranked)
                    else Inl IndexError))
      | None \<Rightarrow> None)"

text \<open>\<open>len(qset.intersection(set(d.lower().split())))\<close>.\<close>

definition overlap :: "string \<Rightarrow> string \<Rightarrow> nat" where
  "overlap query d = card (set (py_split (lower query)) \<inter> set (py_split (lower d)))"

definition lexical_search :: "string list \<Rightarrow> string \<Rightarrow> int \<Rightarrow> scored list" where
  "lexical_search ds query k =
     (let scored = filter (\<lambda>x. fst x > 0) (map (\<lambda>d. (real (overlap query d), d)) ds)
      in slice_to k (sort_key (\<lambda>x. - fst x) scored))"

text \<open>
  \<open>hybrid_search\<close> as the module defines it first (lines 54-95, the documented
  one): the first strategy whose resources are present and that does not raise.
  It goes by \<open>hybrid_search_first\<close> here, since the name is bound again below.
\<close>

definition hybrid_search_first :: "retriever \<Rightarrow> string \<Rightarrow> int \<Rightarrow> scored list" where
  "hybrid_search_first R query k =
     (case vector_search R query k of
        Some (Inr results) \<Rightarrow> results
      | _ \<Rightarrow>
        (case bm25_search R query k of
           Some (Inr results) \<Rightarrow> results
         | _ \<Rightarrow> if r_docs R \<noteq> [] then lexical_search (r_docs R) query k else []))"

text \<open>
  The module does not end there. Lines 96-106 import \<open>faiss\<close>, \<open>numpy\<close>,
  \<open>sentence_transformers\<close> and \<open>rank_bm25\<close> unguarded and load a model, the index,
  the passages (a numpy array) and a BM25 object; line 108 then defines
  \<open>hybrid_search\<close> again. The second definition rebinds the name, so it is the
  function that \<open>realtime.py\<close> and \<open>runner.py\<close> import; the first one cannot be
  reached any more. Every call of the second one is unguarded. \<open>list(set(xs))\<close>
  lists the distinct elements of \<open>xs\<close> in the order in which the set iterates,
  which Python leaves to the hash table: the module state carries that order.
\<close>

record retriever_module =
  m_model :: "string \<Rightarrow> py_error + real list"
  m_index :: "real list \<Rightarrow> int \<Rightarrow> py_error + int list"
  m_docs :: "string list"
  m_bm25 :: "string list \<Rightarrow> string list \<Rightarrow> int \<Rightarrow> py_error + string list"
  m_set_order :: "string list \<Rightarrow> string list"

text \<open>
  \<open>xs[i]\<close> on a sequence (a list, a string, a one-dimensional numpy array): a
  negative index counts from the end, anything else out of range raises.
\<close>

definition getitem :: "'a list \<Rightarrow> int \<Rightarrow> py_error + 'a" where
  "getitem xs i =
     (let n = int (length xs) in
      if 0 \<le> i \<and> i < n then Inr (xs ! nat i)
      else if - n \<le> i \<and> i < 0 then Inr (xs ! nat (n + i))
      else Inl IndexError)"

text \<open>A list comprehension over calls that may raise: the first exception ends it.\<close>

fun collect :: "(py_error + 'a) list \<Rightarrow> py_error + 'a list" where
  "collect [] = Inr []"
| "collect (Inl e # rs) = Inl e"
| "collect (Inr x # rs) = (case collect rs of Inl e \<Rightarrow> Inl e | Inr xs \<Rightarrow> Inr (x # xs))"

definition hybrid_search :: "retriever_module \<Rightarrow> string \<Rightarrow> int \<Rightarrow> py_error + string list" where
  "hybrid_search M query k =
     (case m_model M query of
        Inl e \<Rightarrow> Inl e
      | Inr q_emb \<Rightarrow>
     (case m_index M q_emb k of
        Inl e \<Rightarrow> Inl e
      | Inr I \<Rightarrow>
     (case collect (map (getitem (m_docs M)) I) of
        Inl e \<Rightarrow> Inl e
      | Inr vector_hits \<Rightarrow>
     (case m_bm25 M (py_split query) (m_docs M) k of
        Inl e \<Rightarrow> Inl e
      | Inr bm25_hits \<Rightarrow> Inr (m_set_order M (vector_hits @ bm25_hits))))))"

section \<open>Reranker (rag/reranker.py)\<close>

text \<open>
  The cross-encoder, when \<open>sentence_transformers\<close> imports: \<open>predict\<close> on the
  (query, candidate) pairs, which may raise (as may loading the model).
\<close>

definition model_rerank ::
  "((string \<times> string) list \<Rightarrow> py_error + real list) option \<Rightarrow> string \<Rightarrow> string list \<Rightarrow> int
     \<Rightarrow> (py_error + scored list) option" where
  "model_rerank CrossEncoder query candidates top_k =
     (case CrossEncoder of
        None \<Rightarrow> None
      | Some predict \<Rightarrow>
          Some (case predict (map (\<lambda>c. (query, c)) candidates) of
              Inl e \<Rightarrow> Inl e
            | Inr scores \<Rightarrow>
                Inr (slice_to top_k (sort_key (\<lambda>x. - fst x) (zip scores candidates)))))"

definition fallback_rerank :: "string \<Rightarrow> string list \<Rightarrow> int \<Rightarrow> scored list" where
  "fallback_rerank query candidates top_k =
     (let scored = map (\<lambda>d. (real (overlap query d), d)) candidates
      in slice_to top_k (sort_key (\<lambda>x. - fst x) scored))"

definition rerank ::
  "((string \<times> string) list \<Rightarrow> py_error + real list) option \<Rightarrow> string \<Rightarrow> string list \<Rightarrow> int
     \<Rightarrow> scored list" where
  "rerank CrossEncoder query candidates top_k =
     (if candidates = [] then []
      else case model_rerank CrossEncoder query candidates top_k of
          Some (Inr ranked) \<Rightarrow> ranked
        | _ \<Rightarrow> fallback_rerank query candidates top_k)"

section \<open>Realtime coordinator (realtime.py, app.py)\<close>

text \<open>
  The collaborators of a session: the Groq client of \<open>app.py\<close> (absent without the
  SDK or the API key; its completion call may raise), the speech helper, the
  retriever state and the cross-encoder.
\<close>

record world =
  w_client :: "(string \<Rightarrow> py_error + string) option"
  w_tts :: "string \<Rightarrow> py_error + unit"
  w_retriever :: retriever_module
  w_cross_encoder :: "((string \<times> string) list \<Rightarrow> py_error + real list) option"

definition get_llm_response :: "world \<Rightarrow> string \<Rightarrow> py_error + string" where
  "get_llm_response W user_text =
     (case w_client W of
        None \<Rightarrow> Inr ''[LLM unavailable - set GROQ_API_KEY and install Groq SDK]''
      | Some create \<Rightarrow> create user_text)"

text \<open>
  \<open>_retrieve_and_rerank\<close> takes \<open>c[1]\<close> of every candidate. The candidates are the
  bare texts that \<open>hybrid_search\<close> returns, so \<open>c[1]\<close> is the second character of
  a passage, and a passage shorter than two characters raises.
\<close>

definition retrieve_and_rerank :: "world \<Rightarrow> string list \<Rightarrow> string \<Rightarrow> py_error + string list" where
  "retrieve_and_rerank W hist query =
     (let q2 = rewrite_query query hist in
      case hybrid_search (w_retriever W) q2 8 of
        Inl e \<Rightarrow> Inl e
      | Inr candidates \<Rightarrow>
          (case collect (map (\<lambda>c. getitem c 1) candidates) of
             Inl e \<Rightarrow> Inl e
           | Inr chars \<Rightarrow>
               (let texts = map (\<lambda>ch. [ch]) chars;
                    reranked = rerank (w_cross_encoder W) q2 texts 3
                in Inr (map snd reranked))))"

definition filler_prompt :: "string \<Rightarrow> string" where
  "filler_prompt p =
     ''You are a helpful assistant. Give a very short acknowledgement for: '' @ p"

definition final_prompt :: "string list \<Rightarrow> string \<Rightarrow> string" where
  "final_prompt ctxs p =
     ''Context:'' @ [CHR 0x0A] @ join [CHR 0x0A, CHR 0x0A] ctxs
       @ [CHR 0x0A, CHR 0x0A] @ ''Question: '' @ p"

text \<open>
  A task running \<open>_run_pipeline\<close> is suspended at one of its five \<open>await\<close>s, has
  not started yet, or is done. \<open>Task.cancel()\<close> marks it; the event loop then
  resumes it with \<open>CancelledError\<close> at the \<open>await\<close> where it is suspended.
\<close>

datatype outcome = Completed | ReturnedEarly | Cancelled | Failed py_error

datatype pc =
    NotStarted
  | AwaitFillerLLM
  | AwaitRetrieval
  | AwaitFinalLLM
  | AwaitFillerPlay
  | AwaitFinalPlay
  | Done outcome

record task =
  partial :: string
  pc :: pc
  must_cancel :: bool
  start_ts :: real
  filler_text :: string
  contexts :: "string list"
  retrieval_time :: real
  final_answer :: string

record RealtimeCoordinator =
  history :: "string list"
  current_task :: "nat option"
  metrics :: MetricsCollector
  tasks :: "task list"

definition init :: RealtimeCoordinator where
  "init = \<lparr>history = [], current_task = None,
           metrics = \<lparr>runs = 0, total_retrieval_time = 0, total_time = 0\<rparr>,
           tasks = []\<rparr>"

definition new_task :: "string \<Rightarrow> task" where
  "new_task p = \<lparr>partial = p, pc = NotStarted, must_cancel = False, start_ts = 0,
                 filler_text = [], contexts = [], retrieval_time = 0, final_answer = []\<rparr>"

fun is_done :: "task \<Rightarrow> bool" where
  "is_done t = (case pc t of Done _ \<Rightarrow> True | _ \<Rightarrow> False)"

definition handle_partial :: "RealtimeCoordinator \<Rightarrow> string \<Rightarrow> RealtimeCoordinator" where
  "handle_partial c partial_transcript =
     (let ts = (case current_task c of
                  Some i \<Rightarrow>
                    if i < length (tasks c) \<and> \<not> is_done (tasks c ! i)
                    then (tasks c)[i := (tasks c ! i)\<lparr>must_cancel := True\<rparr>]
                    else tasks c
                | None \<Rightarrow> tasks c)
      in c\<lparr>tasks := ts @ [new_task partial_transcript], current_task := Some (length ts)\<rparr>)"

text \<open>
  \<open>run_pipeline W now c t\<close>: the event loop resumes task \<open>t\<close> when the clock reads
  \<open>now\<close>; the task runs up to its next \<open>await\<close> or to its end. A pending
  cancellation is raised at the current \<open>await\<close>: only the one on the retrieval
  task sits in \<open>except asyncio.CancelledError\<close>; \<open>except Exception\<close> around the
  filler playback does not catch it. An exception of the retrieval task is caught
  nowhere.
\<close>

definition run_pipeline ::
  "world \<Rightarrow> real \<Rightarrow> RealtimeCoordinator \<Rightarrow> task \<Rightarrow> RealtimeCoordinator \<times> task" where
  "run_pipeline W now c t =
     (case pc t of
        Done r \<Rightarrow> (c, t)
      | NotStarted \<Rightarrow>
          if must_cancel t then (c, t\<lparr>pc := Done Cancelled\<rparr>)
          else (c, t\<lparr>start_ts := now, pc := AwaitFillerLLM\<rparr>)
      | AwaitFillerLLM \<Rightarrow>
          if must_cancel t then (c, t\<lparr>pc := Done Cancelled\<rparr>)
          else (case get_llm_response W (filler_prompt (partial t)) of
                  Inl e \<Rightarrow> (c, t\<lparr>pc := Done (Failed e)\<rparr>)
                | Inr txt \<Rightarrow>
                    (c, t\<lparr>filler_text := takeWhile (\<lambda>x. x \<noteq> CHR ''.'') txt @ ''.'',
                           pc := AwaitRetrieval\<rparr>))
      | AwaitRetrieval \<Rightarrow>
          if must_cancel t then (c, t\<lparr>pc := Done ReturnedEarly\<rparr>)
          else (case retrieve_and_rerank W (history c) (partial t) of
                  Inl e \<Rightarrow> (c, t\<lparr>pc := Done (Failed e)\<rparr>)
                | Inr ctxs \<Rightarrow>
                    (c, t\<lparr>contexts := ctxs,
                           retrieval_time := now - start_ts t,
                           pc := AwaitFinalLLM\<rparr>))
      | AwaitFinalLLM \<Rightarrow>
          if must_cancel t then (c, t\<lparr>pc := Done Cancelled\<rparr>)
          else (case get_llm_response W (final_prompt (contexts t) (partial t)) of
                  Inl e \<Rightarrow> (c, t\<lparr>pc := Done (Failed e)\<rparr>)
                | Inr answer \<Rightarrow>
                    (c, t\<lparr>final_answer := postprocess_for_voice answer 18,
                           pc := AwaitFillerPlay\<rparr>))
      | AwaitFillerPlay \<Rightarrow>
          if must_cancel t then (c, t\<lparr>pc := Done Cancelled\<rparr>)
          else (case w_tts W (filler_text t) of
                  Inl e \<Rightarrow> (c, t\<lparr>pc := AwaitFinalPlay\<rparr>)
                | Inr u \<Rightarrow> (c, t\<lparr>pc := AwaitFinalPlay\<rparr>))
      | AwaitFinalPlay \<Rightarrow>
          if must_cancel t then (c, t\<lparr>pc := Done Cancelled\<rparr>)
          else (case w_tts W (final_answer t) of
                  Inl e \<Rightarrow> (c, t\<lparr>pc := Done (Failed e)\<rparr>)
                | Inr u \<Rightarrow>
                    (c\<lparr>metrics := add (metrics c) (retrieval_time t) (now - start_ts t),
                       history := history c @ [partial t, final_answer t]\<rparr>,
                     t\<lparr>pc := Done Completed\<rparr>)))"

text \<open>
  What happens to a coordinator: a caller awaits \<open>handle_partial\<close>, or the event
  loop resumes one of the tasks created so far.
\<close>

datatype event = HandlePartial string | Resume nat real

fun exec :: "world \<Rightarrow> RealtimeCoordinator \<Rightarrow> event \<Rightarrow> RealtimeCoordinator" where
  "exec W c (HandlePartial p) = handle_partial c p"
| "exec W c (Resume i now) =
     (if i < length (tasks c)
      then (case run_pipeline W now c (tasks c ! i) of
              (c', t') \<Rightarrow> c'\<lparr>tasks := (tasks c')[i := t']\<rparr>)
      else c)"

definition run :: "world \<Rightarrow> RealtimeCoordinator \<Rightarrow> event list \<Rightarrow> RealtimeCoordinator" where
  "run W c evs = foldl (exec W) c evs"

section \<open>Ordering of results and example states\<close>

text \<open>Best first under "higher is better": the scores never increase along the list.\<close>

definition best_first :: "scored list \<Rightarrow> bool" where
  "best_first xs = sorted_wrt (\<lambda>a b. fst a \<ge> fst b) xs"

text \<open>
  An index as \<open>rag/ingest.py\<close>'s \<open>main\<close> builds it (\<open>IndexFlatIP\<close> over normalised
  embeddings): \<open>search\<close> returns inner products, the largest first.
\<close>

definition ip_index :: retriever where
  "ip_index = \<lparr>r_index = Some (\<lambda>v k. Inr ([9 / 10, 1 / 2], [0, 1])),
               r_docs = [''a'', ''b''],
               r_embedder = Some (\<lambda>q. Inr []),
               r_bm25 = None\<rparr>"

text \<open>
  What a caller may be handed: a (score, text) pair, or a bare text. The scores
  of a sequence exist only if every element is a pair.
\<close>

datatype returned = ScoredPassage real string | BareText string

fun scores :: "returned list \<Rightarrow> real list option" where
  "scores [] = Some []"
| "scores (ScoredPassage s d # rs) =
     (case scores rs of None \<Rightarrow> None | Some ss \<Rightarrow> Some (s # ss))"
| "scores (BareText d # rs) = None"

definition non_increasing_scores :: "returned list \<Rightarrow> bool" where
  "non_increasing_scores rs =
     (case scores rs of None \<Rightarrow> False | Some ss \<Rightarrow> sorted_wrt (\<lambda>a b. a \<ge> b) ss)"

text \<open>
  A loaded module with two passages: a flat index over both, which answers a
  request for \<open>k\<close> neighbours with passage 0, then passage 1, then \<open>-1\<close> up to
  length \<open>k\<close>, as FAISS does; BM25 ranks the passages the other way round.
\<close>

definition two_hits :: retriever_module where
  "two_hits = \<lparr>m_model = (\<lambda>q. Inr []),
               m_index = (\<lambda>v k. Inr (take (nat k) ([0, 1] @ replicate (nat k - 2) (- 1)))),
               m_docs = [''ab'', ''cd''],
               m_bm25 = (\<lambda>q ds n. Inr (slice_to n (rev ds))),
               m_set_order = remdups\<rparr>"

text \<open>The same passages behind an index that finds no neighbour at all.\<close>

definition no_neighbour :: retriever_module where
  "no_neighbour = \<lparr>m_model = (\<lambda>q. Inr []),
                   m_index = (\<lambda>v k. Inr (replicate (nat k) (- 1))),
                   m_docs = [''ab'', ''cd''],
                   m_bm25 = (\<lambda>q ds n. Inr (slice_to n ds)),
                   m_set_order = remdups\<rparr>"

text \<open>
  A session whose collaborators all answer, and one whose completion call raises.
\<close>

definition quiet_world :: world where
  "quiet_world = \<lparr>w_client = Some (\<lambda>p. Inr ''Sure. It works''),
                  w_tts = (\<lambda>s. Inr ()),
                  w_retriever = two_hits,
                  w_cross_encoder = None\<rparr>"

definition failing_world :: world where
  "failing_world = \<lparr>w_client = Some (\<lambda>p. Inl (ExternalError ''timeout'')),
                    w_tts = (\<lambda>s. Inr ()),
                    w_retriever = two_hits,
                    w_cross_encoder = None\<rparr>"

text \<open>A task that was cancelled has not run to completion.\<close>

definition never_completed_when_cancelled :: "RealtimeCoordinator \<Rightarrow> bool" where
  "never_completed_when_cancelled c =
     (\<forall>i < length (tasks c). must_cancel (tasks c ! i) \<longrightarrow> pc (tasks c ! i) \<noteq> Done Completed)"

section \<open>Texts as token lists\<close>

text \<open>A token: a non-empty string without whitespace.\<close>

definition tok :: "string \<Rightarrow> bool" where
  "tok t = (t \<noteq> [] \<and> (\<forall>c\<in>set t. \<not> isspace c))"

text \<open>The tokens, each behind one space.\<close>

definition spaced :: "string list \<Rightarrow> string" where
  "spaced ws = concat (map (\<lambda>t. CHR '' '' # t) ws)"

text \<open>The space that stands for trailing whitespace.\<close>

definition trailing :: "string \<Rightarrow> string" where
  "trailing s = (if s \<noteq> [] \<and> isspace (last s) then '' '' else [])"

text \<open>Sentences as groups of tokens: a group ends after a token whose last character is one of \<open>.\<close>, \<open>!\<close>, \<open>?\<close>, when more tokens follow; \<open>cur\<close> is the group read so far.\<close>

fun groups :: "string list \<Rightarrow> string list \<Rightarrow> string list list" where
  "groups cur [] = [cur]"
| "groups cur (w # ws) =
     (if sentence_end (last (last cur)) then cur # groups [w] ws else groups (cur @ [w]) ws)"

text \<open>A group is non-empty and only its last token may end a sentence.\<close>

definition open_group :: "string list \<Rightarrow> bool" where
  "open_group g = (g \<noteq> [] \<and> (\<forall>w\<in>set (butlast g). \<not> sentence_end (last w)))"

text \<open>A list of groups as the splitter produces it: every group but the last ends a sentence.\<close>

fun well_grouped :: "string list list \<Rightarrow> bool" where
  "well_grouped [] = True"
| "well_grouped (g # G) = (open_group g \<and> (G \<noteq> [] \<longrightarrow> sentence_end (last (last g))) \<and> well_grouped G)"

text \<open>Truncation of a group to \<open>m\<close> tokens, the marker \<open>...\<close> glued to the last one kept.\<close>

definition truncate_group :: "nat \<Rightarrow> string list \<Rightarrow> string list" where
  "truncate_group m g =
     (if length g > m
      then (if m = 0 then [''...''] else butlast (take m g) @ [last (take m g) @ ''...''])
      else g)"

text \<open>The whole transform on tokens.\<close>

definition shorten :: "nat \<Rightarrow> string list \<Rightarrow> string list" where
  "shorten m ws = (case ws of [] \<Rightarrow> [] | w # ws' \<Rightarrow> concat (map (truncate_group m) (groups [w] ws')))"

section \<open>Properties of the rewriter\<close>

lemma str_contains_iff: "str_contains s p \<longleftrightarrow> sublist p s"
  by (induction s) (auto simp: sublist_Cons_right)

lemma str_contains_append: "str_contains (pre @ p @ suf) p"
  by (simp add: str_contains_iff)

lemma pronoun_test_iff:
  "list_ex (\<lambda>p. str_contains s p) pronouns
     \<longleftrightarrow> (\<exists>p\<in>set pronouns. \<exists>pre suf. s = pre @ p @ suf)"
  by (auto simp: list_ex_iff str_contains_iff sublist_def)

text \<open>
  C7: \<open>rewrite_query\<close> returns the query unchanged on an empty history; on a
  non-empty history, a query that contains one of the seven pronouns (the code
  looks for them in the lowercased query) comes back with the marker
  \<open>(context: <last history entry>)\<close> appended, so that the result contains both
  the query and that entry; any other query comes back unchanged.
\<close>

theorem rewrite_query_cases:
  "(hist = [] \<longrightarrow> rewrite_query query hist = query) \<and>
   (hist \<noteq> [] \<and> (\<exists>p\<in>set pronouns. str_contains (lower query) p) \<longrightarrow>
      rewrite_query query hist = query @ '' (context: '' @ last hist @ '')'' \<and>
      str_contains (rewrite_query query hist) query \<and>
      str_contains (rewrite_query query hist) (last hist)) \<and>
   (hist \<noteq> [] \<and> \<not> (\<exists>p\<in>set pronouns. str_contains (lower query) p) \<longrightarrow>
      rewrite_query query hist = query)"
proof -
  have "str_contains (query @ '' (context: '' @ last hist @ '')'') query"
    using str_contains_append [of "[]" query] by simp
  moreover have "str_contains (query @ '' (context: '' @ last hist @ '')'') (last hist)"
    using str_contains_append [of "query @ '' (context: ''" "last hist" "'')''"] by simp
  ultimately show ?thesis
    by (simp add: rewrite_query_def list_ex_iff)
qed

theorem rewrite_query_cases_witness:
  "rewrite_query ''hello'' [] = ''hello'' \<and>
   rewrite_query ''what about it?'' [''I bought a car'']
     = ''what about it? (context: I bought a car)'' \<and>
   str_contains (rewrite_query ''what about it?'' [''I bought a car'']) ''what about it?'' \<and>
   str_contains (rewrite_query ''what about it?'' [''I bought a car'']) ''I bought a car'' \<and>
   rewrite_query ''hello'' [''I bought a car''] = ''hello''"
proof -
  have a: "\<exists>p\<in>set pronouns. str_contains (lower ''what about it?'') p"
    by code_simp
  have b: "\<not> (\<exists>p\<in>set pronouns. str_contains (lower ''hello'') p)"
    by code_simp
  show ?thesis
    using rewrite_query_cases [of "[]" "''hello''"]
      rewrite_query_cases [of "[''I bought a car'']" "''what about it?''"]
      rewrite_query_cases [of "[''I bought a car'']" "''hello''"] a b
    by simp
qed

text \<open>
  C10: the pronoun test is a substring test on the lowercased query, not a word
  match. On a non-empty history the result is exactly the query followed by
  \<open> (context: \<close>, the last history entry and \<open>)\<close> when one of the seven strings
  occurs anywhere in the lowercased query, also inside a longer word (\<open>it\<close> in
  \<open>With\<close>, \<open>first\<close> in \<open>Firstly\<close>), and the query itself otherwise.
\<close>

theorem rewrite_query_substring:
  assumes "hist \<noteq> []"
  shows "rewrite_query query hist =
    (if \<exists>p\<in>set pronouns. \<exists>pre suf. lower query = pre @ p @ suf
     then query @ '' (context: '' @ last hist @ '')'' else query)"
  using assms by (simp add: rewrite_query_def pronoun_test_iff)

theorem rewrite_query_substring_witness:
  "rewrite_query ''play With me'' [''a'', ''b''] = ''play With me (context: b)'' \<and>
   rewrite_query ''Firstly'' [''a'', ''b''] = ''Firstly (context: b)'' \<and>
   rewrite_query ''hello'' [''a'', ''b''] = ''hello''"
proof -
  have h: "[''a'', ''b''] \<noteq> []" by simp
  have a: "list_ex (\<lambda>p. str_contains (lower ''play With me'') p) pronouns" by code_simp
  have b: "list_ex (\<lambda>p. str_contains (lower ''Firstly'') p) pronouns" by code_simp
  have c: "\<not> list_ex (\<lambda>p. str_contains (lower ''hello'') p) pronouns" by code_simp
  show ?thesis
    using rewrite_query_substring [OF h, of "''play With me''"]
      rewrite_query_substring [OF h, of "''Firstly''"]
      rewrite_query_substring [OF h, of "''hello''"] a b c
    unfolding pronoun_test_iff by simp
qed

section \<open>Properties of the metrics collector\<close>

text \<open>
  C9: with a run count of zero \<open>summary\<close> returns the empty mapping, and in no
  state does it raise \<open>ZeroDivisionError\<close>: both divisions sit behind the test
  \<open>runs == 0\<close>.
\<close>

theorem summary_zero_runs:
  "(runs m = 0 \<longrightarrow> summary m = Inr []) \<and> summary m \<noteq> Inl ZeroDivisionError"
  by (simp add: summary_def truediv_def)

theorem summary_zero_runs_witness:
  "summary \<lparr>runs = 0, total_retrieval_time = 3, total_time = 5\<rparr> = Inr []"
  using summary_zero_runs [of "\<lparr>runs = 0, total_retrieval_time = 3, total_time = 5\<rparr>"]
  by simp

section \<open>Properties of retrieval and reranking\<close>

lemma length_slice_to: "0 \<le> k \<Longrightarrow> length (slice_to k xs) \<le> nat k"
  by (simp add: slice_to_def)

lemma slice_to_prefix: "prefix (slice_to k xs) xs"
  by (simp add: slice_to_def take_is_prefix)

lemma best_first_slice_to: "best_first xs \<Longrightarrow> best_first (slice_to k xs)"
  by (simp add: best_first_def slice_to_def sorted_wrt_take)

lemma sorted_wrt_neg_key:
  "sorted (map (\<lambda>x. - (f x :: real)) xs) \<Longrightarrow> sorted_wrt (\<lambda>a b. f a \<ge> f b) xs"
  by (induction xs) auto

lemma best_first_sort_key: "best_first (sort_key (\<lambda>x. - fst x) xs)"
  unfolding best_first_def by (rule sorted_wrt_neg_key) (rule sorted_sort_key)

lemma snd_sort_key_desc:
  "sorted_wrt (\<lambda>a b. snd a \<ge> (snd b :: real)) (sort_key (\<lambda>x. - snd x) xs)"
  by (rule sorted_wrt_neg_key) (rule sorted_sort_key)

lemma lexical_search_best_first: "best_first (lexical_search ds query k)"
  by (simp add: lexical_search_def best_first_slice_to best_first_sort_key)

lemma fallback_rerank_best_first: "best_first (fallback_rerank query cands k)"
  by (simp add: fallback_rerank_def best_first_slice_to best_first_sort_key)

lemma model_rerank_best_first:
  "model_rerank ce query cands k = Some (Inr r) \<Longrightarrow> best_first r"
  by (auto simp: model_rerank_def best_first_slice_to best_first_sort_key
      split: option.splits sum.splits)

lemma rerank_best_first: "best_first (rerank ce query cands k)"
  by (auto simp: rerank_def best_first_def[of "[]"] model_rerank_best_first
      fallback_rerank_best_first split: option.splits sum.splits)

lemma bm25_search_best_first:
  assumes "bm25_search R query k = Some (Inr r)"
  shows "best_first r"
proof -
  have *: "sorted_wrt (\<lambda>a b. snd a \<ge> (snd b :: real)) ranked \<Longrightarrow>
      best_first (map (\<lambda>(i, s). (s, ds ! i)) ranked)" for ranked :: "(nat \<times> real) list" and ds
    by (simp add: best_first_def sorted_wrt_map case_prod_unfold)
  from assms show ?thesis
    by (auto simp: bm25_search_def Let_def slice_to_def sorted_wrt_take snd_sort_key_desc
        intro!: * split: option.splits sum.splits if_splits)
qed

lemma vector_results_eq:
  "vector_results ds pairs =
     map (\<lambda>(score, idx). (- score, ds ! nat idx))
       (filter (\<lambda>(score, idx). 0 \<le> idx \<and> idx < int (length ds)) pairs)"
  by (induction ds pairs rule: vector_results.induct) auto

lemma vector_results_best_first:
  "sorted (map fst pairs) \<Longrightarrow> best_first (vector_results ds pairs)"
  unfolding vector_results_eq best_first_def
  by (induction pairs) (auto simp: sorted_wrt_map case_prod_unfold)

lemma length_vector_results: "length (vector_results ds pairs) \<le> length pairs"
  by (simp add: vector_results_eq)

lemma hybrid_search_first_cases:
  "vector_search R query k = Some (Inr (hybrid_search_first R query k))
   \<or> bm25_search R query k = Some (Inr (hybrid_search_first R query k))
   \<or> hybrid_search_first R query k = lexical_search (r_docs R) query k
   \<or> hybrid_search_first R query k = []"
  by (simp add: hybrid_search_first_def split: option.splits sum.splits)

lemma vector_search_SomeD:
  assumes "vector_search R query k = Some (Inr r)"
  obtains search emb v D I where "r_index R = Some search" "r_embedder R = Some emb"
    "emb query = Inr v" "search v k = Inr (D, I)" "r = vector_results (r_docs R) (zip D I)"
  using assms by (auto simp: vector_search_def split: option.splits sum.splits prod.splits)

lemma hybrid_search_first_best_first:
  assumes "\<And>search v D I. r_index R = Some search \<Longrightarrow> search v k = Inr (D, I) \<Longrightarrow> sorted D"
  shows "best_first (hybrid_search_first R query k)"
proof -
  have v: "best_first r" if "vector_search R query k = Some (Inr r)" for r
  proof -
    from that obtain search v D I where s: "r_index R = Some search" "search v k = Inr (D, I)"
      and r: "r = vector_results (r_docs R) (zip D I)"
      by (rule vector_search_SomeD)
    from assms [OF s] have "sorted (map fst (zip D I))"
      by (simp add: map_fst_zip_take sorted_wrt_take)
    then show ?thesis unfolding r by (rule vector_results_best_first)
  qed
  from hybrid_search_first_cases [of R query k] show ?thesis
    using v bm25_search_best_first lexical_search_best_first
    by (auto simp: best_first_def[of "[]"])
qed

lemma hybrid_search_first_length:
  assumes "0 \<le> k"
    and "\<And>search v D I. r_index R = Some search \<Longrightarrow> search v k = Inr (D, I)
           \<Longrightarrow> min (length D) (length I) \<le> nat k"
  shows "length (hybrid_search_first R query k) \<le> nat k"
proof -
  have v: "length r \<le> nat k" if "vector_search R query k = Some (Inr r)" for r
  proof -
    from that obtain search v D I where s: "r_index R = Some search" "search v k = Inr (D, I)"
      and r: "r = vector_results (r_docs R) (zip D I)"
      by (rule vector_search_SomeD)
    have "length r \<le> length (zip D I)"
      unfolding r by (rule length_vector_results)
    with assms(2) [OF s] show ?thesis by (simp add: min_def split: if_splits)
  qed
  have b: "length r \<le> nat k" if "bm25_search R query k = Some (Inr r)" for r
    using that assms(1)
    by (auto simp: bm25_search_def Let_def length_slice_to
        split: option.splits sum.splits if_splits)
  have l: "length (lexical_search (r_docs R) query k) \<le> nat k"
    using assms(1) by (simp add: lexical_search_def length_slice_to)
  from hybrid_search_first_cases [of R query k] show ?thesis
    using v b l by auto
qed

text \<open>
  The first definition on an inner-product index, whose similarities arrive
  largest first: the vector path negates them, so its scores would increase.
\<close>

lemma hybrid_search_first_vector_worst_first:
  "hybrid_search_first ip_index ''q'' 2 = [(- 9 / 10, ''a''), (- 1 / 2, ''b'')] \<and>
   \<not> best_first (hybrid_search_first ip_index ''q'' 2)"
  by (simp add: hybrid_search_first_def vector_search_def ip_index_def best_first_def)

lemma two_hits_search:
  "hybrid_search two_hits q 1 = Inr [''ab'', ''cd'']"
  "hybrid_search two_hits q 2 = Inr [''cd'', ''ab'']"
  "hybrid_search two_hits q 8 = Inr [''cd'', ''ab'']"
  by (simp_all add: hybrid_search_def two_hits_def getitem_def slice_to_def
      numeral_2_eq_2 numeral_eq_Suc)

lemma no_neighbour_search: "hybrid_search no_neighbour q 1 = Inr [''cd'', ''ab'']"
  by (simp add: hybrid_search_def no_neighbour_def getitem_def slice_to_def)

lemma overlap_a: "overlap ''a'' ''d'' = 0" "overlap ''a'' ''b'' = 0"
  by code_simp+

lemma quiet_contexts: "retrieve_and_rerank quiet_world [] ''a'' = Inr [''d'', ''b'']"
  by (simp add: retrieve_and_rerank_def quiet_world_def two_hits_search rewrite_query_def
      getitem_def rerank_def model_rerank_def fallback_rerank_def overlap_a slice_to_def)

text \<open>
  C1: in every sequence that \<open>hybrid_search\<close> and \<open>rerank\<close> return the scores never
  increase. \<open>rerank\<close> sorts by descending score on both of its paths (lemma
  \<open>rerank_best_first\<close>). The \<open>hybrid_search\<close> that callers import returns
  \<open>list(set(...))\<close> of bare texts: no element carries a score, the order is the
  set's, and what \<open>_retrieve_and_rerank\<close> then takes for the text of a candidate,
  \<open>c[1]\<close>, is the second character of the passage.
\<close>

theorem hybrid_search_returns_no_scores:
  "hybrid_search two_hits ''a'' 2 = Inr [''cd'', ''ab''] \<and>
   scores (map BareText [''cd'', ''ab'']) = None \<and>
   \<not> non_increasing_scores (map BareText [''cd'', ''ab'']) \<and>
   retrieve_and_rerank quiet_world [] ''a'' = Inr [''d'', ''b'']"
  by (simp add: two_hits_search quiet_contexts non_increasing_scores_def)

text \<open>
  C5: \<open>hybrid_search(query, k)\<close> returns at most \<open>k\<close> (score, text) pairs and drops
  every index outside the passages. The \<open>hybrid_search\<close> that callers import
  returns the distinct texts among the \<open>k\<close> vector hits and the \<open>k\<close> BM25 hits:
  two texts for \<open>k = 1\<close> when the two rankings disagree. It reads \<open>docs[i]\<close> for
  every index it is given, so for FAISS's padding \<open>-1\<close> it returns the last
  passage.
\<close>

theorem hybrid_search_exceeds_k:
  "hybrid_search two_hits ''a'' 1 = Inr [''ab'', ''cd''] \<and>
   \<not> int (length [''ab'', ''cd'']) \<le> 1 \<and>
   hybrid_search no_neighbour ''a'' 1 = Inr [''cd'', ''ab''] \<and>
   getitem (m_docs no_neighbour) (- 1) = Inr ''cd''"
proof -
  have "getitem (m_docs no_neighbour) (- 1) = Inr ''cd''"
    by (simp add: getitem_def no_neighbour_def)
  then show ?thesis
    by (simp add: two_hits_search no_neighbour_search)
qed

text \<open>A passage of one character: \<open>c[1]\<close> raises in the retrieval task.\<close>

lemma short_passage_raises:
  "retrieve_and_rerank (W\<lparr>w_retriever := two_hits\<lparr>m_docs := [''ab'', ''c'']\<rparr>\<rparr>) [] ''a''
     = Inl IndexError"
  by (simp add: retrieve_and_rerank_def hybrid_search_def two_hits_def getitem_def slice_to_def
      rewrite_query_def numeral_eq_Suc)

lemma overlap_blue_bike: "overlap ''red car price'' ''blue bike'' = 0"
  by code_simp

lemma overlap_red_car: "overlap ''red car price'' ''the red car costs a lot'' = 2"
  by code_simp

lemma rerank_red_car:
  "rerank None ''red car price'' [''the red car costs a lot'', ''blue bike''] 5
     = [(2, ''the red car costs a lot''), (0, ''blue bike'')]"
  by (simp add: rerank_def model_rerank_def fallback_rerank_def overlap_blue_bike
      overlap_red_car slice_to_def)


text \<open>
  C6, as stated: without a model, candidates with zero overlap are excluded. The
  fallback of \<open>rerank\<close> has no such filter: \<open>blue bike\<close> shares no token with
  \<open>red car price\<close> and is returned, with score 0.
\<close>

theorem rerank_fallback_keeps_zero_overlap:
  "overlap ''red car price'' ''blue bike'' = 0 \<and>
   (0, ''blue bike'') \<in> set (rerank None ''red car price''
                                 [''the red car costs a lot'', ''blue bike''] 5)"
  by (simp add: rerank_red_car overlap_blue_bike)


lemma filter_sort_key_neg:
  "filter (\<lambda>x. fst x = (v::real)) (sort_key (\<lambda>x. - fst x) xs) = filter (\<lambda>x. fst x = v) xs"
  using sort_key_stable [of "\<lambda>x. - fst x" "- v" xs] by simp


text \<open>
  C6, amended: when no cross-encoder is available (or its call raises), \<open>rerank\<close>
  scores each candidate by the number of lowercase tokens it shares with the
  query and keeps every candidate, those with zero overlap too: the ranking of
  all candidates is a permutation of the scored candidates, is best-first, keeps
  candidates of equal score in their original order, and the result for \<open>top_k\<close>
  is the slice \<open>[:top_k]\<close> of it.
\<close>

theorem rerank_fallback_ranking:
  assumes "ce = None \<or> (\<exists>predict e. ce = Some predict
              \<and> predict (map (\<lambda>c. (query, c)) candidates) = Inl e)"
  shows "rerank ce query candidates top_k
           = slice_to top_k (rerank ce query candidates (int (length candidates))) \<and>
         mset (rerank ce query candidates (int (length candidates)))
           = mset (map (\<lambda>d. (real (overlap query d), d)) candidates) \<and>
         best_first (rerank ce query candidates (int (length candidates))) \<and>
         (\<forall>v. filter (\<lambda>x. fst x = v) (rerank ce query candidates (int (length candidates)))
              = filter (\<lambda>x. fst x = v) (map (\<lambda>d. (real (overlap query d), d)) candidates))"
proof -
  have fb: "rerank ce query candidates n = fallback_rerank query candidates n" for n
    using assms by (auto simp: rerank_def model_rerank_def fallback_rerank_def slice_to_def)
  have full: "fallback_rerank query candidates (int (length candidates))
      = sort_key (\<lambda>x. - fst x) (map (\<lambda>d. (real (overlap query d), d)) candidates)"
    by (simp add: fallback_rerank_def slice_to_def)
  show ?thesis
    unfolding fb full
    by (simp add: fallback_rerank_def best_first_sort_key filter_sort_key_neg)
qed

theorem rerank_fallback_ranking_witness:
  "rerank None ''red car price'' [''the red car costs a lot'', ''blue bike''] 5
     = slice_to 5 (rerank None ''red car price''
                     [''the red car costs a lot'', ''blue bike''] 2) \<and>
   mset (rerank None ''red car price'' [''the red car costs a lot'', ''blue bike''] 2)
     = mset [(2, ''the red car costs a lot''), (0, ''blue bike'')] \<and>
   best_first (rerank None ''red car price'' [''the red car costs a lot'', ''blue bike''] 2)"
proof -
  have h: "(None :: ((string \<times> string) list \<Rightarrow> py_error + real list) option) = None \<or>
     (\<exists>predict e. None = Some predict
        \<and> predict (map (\<lambda>c. (''red car price'', c))
                      [''the red car costs a lot'', ''blue bike'']) = Inl (e :: py_error))"
    by simp
  show ?thesis
    using rerank_fallback_ranking [OF h, of 5]
    by (simp add: overlap_blue_bike overlap_red_car)
qed

section \<open>Properties of the coordinator\<close>

lemma run_pipeline_cancelled:
  assumes "must_cancel t"
  shows "fst (run_pipeline W now c t) = c"
    and "must_cancel (snd (run_pipeline W now c t))"
    and "pc t \<noteq> Done Completed \<Longrightarrow> pc (snd (run_pipeline W now c t)) \<noteq> Done Completed"
  using assms by (auto simp: run_pipeline_def split: pc.splits)

lemma run_pipeline_frame:
  "tasks (fst (run_pipeline W now c t)) = tasks c"
  "current_task (fst (run_pipeline W now c t)) = current_task c"
  "must_cancel (snd (run_pipeline W now c t)) = must_cancel t"
  "partial (snd (run_pipeline W now c t)) = partial t"
  by (auto simp: run_pipeline_def split: pc.splits sum.splits)

lemma run_pipeline_effect:
  "(pc t = AwaitFinalPlay \<and> \<not> must_cancel t \<and> pc (snd (run_pipeline W now c t)) = Done Completed
      \<and> history (fst (run_pipeline W now c t)) = history c @ [partial t, final_answer t]
      \<and> metrics (fst (run_pipeline W now c t))
           = add (metrics c) (retrieval_time t) (now - start_ts t))
   \<or> (fst (run_pipeline W now c t) = c
      \<and> (pc (snd (run_pipeline W now c t)) = Done Completed \<longrightarrow> pc t = Done Completed))"
  by (auto simp: run_pipeline_def split: pc.splits sum.splits)


lemma exec_Resume_task:
  assumes "i < length (tasks c)"
  shows "tasks (exec W c (Resume i now)) = (tasks c)[i := snd (run_pipeline W now c (tasks c ! i))]"
    and "history (exec W c (Resume i now)) = history (fst (run_pipeline W now c (tasks c ! i)))"
    and "metrics (exec W c (Resume i now)) = metrics (fst (run_pipeline W now c (tasks c ! i)))"
  using assms run_pipeline_frame(1) [of W now c "tasks c ! i"]
  by (simp_all add: case_prod_unfold)

lemma exec_Resume_out: "\<not> i < length (tasks c) \<Longrightarrow> exec W c (Resume i now) = c"
  by simp

declare exec.simps(2) [simp del]

lemma length_tasks_exec: "length (tasks c) \<le> length (tasks (exec W c e))"
proof (cases e)
  case (HandlePartial p)
  then show ?thesis
    by (simp add: handle_partial_def Let_def split: option.splits)
next
  case (Resume i now)
  then show ?thesis
    by (cases "i < length (tasks c)") (simp_all add: exec_Resume_task(1) exec_Resume_out)
qed

lemma handle_partial_nth:
  assumes "j < length (tasks c)"
  shows "tasks (handle_partial c p) ! j =
     (if current_task c = Some j \<and> \<not> is_done (tasks c ! j)
      then (tasks c ! j)\<lparr>must_cancel := True\<rparr> else tasks c ! j)"
  using assms
  by (auto simp: handle_partial_def Let_def nth_append nth_list_update split: option.splits)

lemma handle_partial_frame:
  "history (handle_partial c p) = history c"
  "metrics (handle_partial c p) = metrics c"
  "length (tasks (handle_partial c p)) = Suc (length (tasks c))"
  "tasks (handle_partial c p) ! length (tasks c) = new_task p"
  "current_task (handle_partial c p) = Some (length (tasks c))"
  by (auto simp: handle_partial_def Let_def nth_append split: option.splits)

lemma cancelled_stays:
  assumes "i < length (tasks c)" "must_cancel (tasks c ! i)" "pc (tasks c ! i) \<noteq> Done Completed"
  shows "must_cancel (tasks (exec W c e) ! i) \<and> pc (tasks (exec W c e) ! i) \<noteq> Done Completed"
proof (cases e)
  case (HandlePartial p)
  with assms show ?thesis by (simp add: handle_partial_nth)
next
  case (Resume j now)
  show ?thesis
  proof (cases "j < length (tasks c)")
    case True
    with assms Resume show ?thesis
      by (cases "j = i") (simp_all add: exec_Resume_task(1) run_pipeline_cancelled)
  next
    case False
    with assms Resume show ?thesis by (simp add: exec_Resume_out)
  qed
qed

lemma cancelled_stays_run:
  assumes "i < length (tasks c)" "must_cancel (tasks c ! i)" "pc (tasks c ! i) \<noteq> Done Completed"
  shows "i < length (tasks (run W c evs)) \<and> must_cancel (tasks (run W c evs) ! i)
     \<and> pc (tasks (run W c evs) ! i) \<noteq> Done Completed"
  using assms
proof (induction evs arbitrary: c)
  case Nil
  then show ?case by (simp add: run_def)
next
  case (Cons e evs)
  have "i < length (tasks (exec W c e))"
    using Cons.prems(1) length_tasks_exec [of c W e] by simp
  moreover note cancelled_stays [OF Cons.prems, of W e]
  ultimately show ?case
    using Cons.IH [of "exec W c e"] by (simp add: run_def)
qed

lemma invariant_exec:
  assumes "never_completed_when_cancelled c"
  shows "never_completed_when_cancelled (exec W c e)"
proof (cases e)
  case (HandlePartial p)
  have "pc (tasks (handle_partial c p) ! j) \<noteq> Done Completed"
    if "j < length (tasks (handle_partial c p))" "must_cancel (tasks (handle_partial c p) ! j)" for j
  proof (cases "j < length (tasks c)")
    case True
    with that assms show ?thesis
      by (auto simp: handle_partial_nth never_completed_when_cancelled_def split: if_splits)
  next
    case False
    with that have "j = length (tasks c)" by (simp add: handle_partial_frame)
    with that show ?thesis by (simp add: handle_partial_frame new_task_def)
  qed
  with HandlePartial show ?thesis by (simp add: never_completed_when_cancelled_def)
next
  case (Resume i now)
  show ?thesis
  proof (cases "i < length (tasks c)")
    case False
    with assms Resume show ?thesis by (simp add: exec_Resume_out)
  next
    case True
    have "pc (tasks (exec W c (Resume i now)) ! j) \<noteq> Done Completed"
      if j: "j < length (tasks c)" "must_cancel (tasks (exec W c (Resume i now)) ! j)" for j
    proof (cases "j = i")
      case False
      with that True assms show ?thesis
        by (simp add: exec_Resume_task(1) never_completed_when_cancelled_def)
    next
      case eq: True
      with j True have mc: "must_cancel (tasks c ! i)"
        by (simp add: exec_Resume_task(1) run_pipeline_frame)
      with assms True have "pc (tasks c ! i) \<noteq> Done Completed"
        by (simp add: never_completed_when_cancelled_def)
      with mc True eq show ?thesis
        by (simp add: exec_Resume_task(1) run_pipeline_cancelled)
    qed
    with True Resume show ?thesis
      by (simp add: never_completed_when_cancelled_def exec_Resume_task(1))
  qed
qed

lemma invariant_run:
  "never_completed_when_cancelled c \<Longrightarrow> never_completed_when_cancelled (run W c evs)"
  by (induction evs arbitrary: c) (simp_all add: run_def invariant_exec)

lemma invariant_init: "never_completed_when_cancelled init"
  by (simp add: never_completed_when_cancelled_def init_def)

lemma exec_changes_only_on_completion:
  assumes "history (exec W c e) \<noteq> history c \<or> metrics (exec W c e) \<noteq> metrics c"
  shows "\<exists>j now. e = Resume j now \<and> j < length (tasks c) \<and> \<not> must_cancel (tasks c ! j)
           \<and> pc (tasks c ! j) = AwaitFinalPlay
           \<and> pc (tasks (exec W c e) ! j) = Done Completed"
proof (cases e)
  case (HandlePartial p)
  with assms show ?thesis by (simp add: handle_partial_frame)
next
  case (Resume j now)
  show ?thesis
  proof (cases "j < length (tasks c)")
    case False
    with assms Resume show ?thesis by (simp add: exec_Resume_out)
  next
    case True
    from run_pipeline_effect [of "tasks c ! j" W now c] assms Resume True
    show ?thesis
      by (auto simp: exec_Resume_task)
  qed
qed

lemma run_Cons: "run W c (e # evs) = run W (exec W c e) evs"
  by (simp add: run_def)

lemma run_Nil: "run W c [] = c"
  by (simp add: run_def)

text \<open>
  C2: a Run that is superseded before it is done (a later \<open>handle_partial\<close> finds
  its task not done and cancels it) never reaches completion, whatever happens
  afterwards; resuming it, when the work it had dispatched finishes, changes
  neither the history nor the metrics; and any step that does change the history
  or the metrics is the step in which another, uncancelled task completes.
\<close>

theorem superseded_run_never_updates:
  assumes "current_task c0 = Some i" and "i < length (tasks c0)" and "\<not> is_done (tasks c0 ! i)"
  shows "must_cancel (tasks (run W (handle_partial c0 p) evs) ! i) \<and>
         pc (tasks (run W (handle_partial c0 p) evs) ! i) \<noteq> Done Completed \<and>
         history (exec W (run W (handle_partial c0 p) evs) (Resume i now))
           = history (run W (handle_partial c0 p) evs) \<and>
         metrics (exec W (run W (handle_partial c0 p) evs) (Resume i now))
           = metrics (run W (handle_partial c0 p) evs) \<and>
         (\<forall>e. history (exec W (run W (handle_partial c0 p) evs) e)
                 \<noteq> history (run W (handle_partial c0 p) evs)
               \<or> metrics (exec W (run W (handle_partial c0 p) evs) e)
                 \<noteq> metrics (run W (handle_partial c0 p) evs) \<longrightarrow>
            (\<exists>j now. e = Resume j now \<and> j \<noteq> i
               \<and> \<not> must_cancel (tasks (run W (handle_partial c0 p) evs) ! j)
               \<and> pc (tasks (exec W (run W (handle_partial c0 p) evs) e) ! j) = Done Completed))"
proof -
  define c1 where "c1 = handle_partial c0 p"
  define c where "c = run W c1 evs"
  have 1: "i < length (tasks c1)" "must_cancel (tasks c1 ! i)" "pc (tasks c1 ! i) \<noteq> Done Completed"
    using assms by (auto simp: c1_def handle_partial_frame handle_partial_nth)
  from cancelled_stays_run [OF 1, of W evs]
  have 2: "i < length (tasks c)" "must_cancel (tasks c ! i)" "pc (tasks c ! i) \<noteq> Done Completed"
    by (simp_all add: c_def)
  have 3: "history (exec W c (Resume i now)) = history c"
    "metrics (exec W c (Resume i now)) = metrics c"
    using 2 by (simp_all add: exec_Resume_task run_pipeline_cancelled)
  have 4: "\<exists>j now. e = Resume j now \<and> j \<noteq> i \<and> \<not> must_cancel (tasks c ! j)
               \<and> pc (tasks (exec W c e) ! j) = Done Completed"
    if "history (exec W c e) \<noteq> history c \<or> metrics (exec W c e) \<noteq> metrics c" for e
    using exec_changes_only_on_completion [OF that] 2 by auto
  from 2 3 4 show ?thesis
    unfolding c_def c1_def by blast
qed


lemma quiet_world_calls:
  "get_llm_response quiet_world p = Inr ''Sure. It works''"
  "w_tts quiet_world s = Inr ()"
  by (simp_all add: get_llm_response_def quiet_world_def)

lemma failing_world_calls:
  "get_llm_response failing_world p = Inl (ExternalError ''timeout'')"
  by (simp add: get_llm_response_def failing_world_def)

lemmas eval_simps = run_Cons run_Nil exec.simps handle_partial_def run_pipeline_def init_def
  new_task_def add_def quiet_world_calls quiet_contexts failing_world_calls Let_def

lemma quiet_start:
  "run quiet_world init [HandlePartial ''a'', Resume 0 1, Resume 0 2] =
     \<lparr>history = [], current_task = Some 0,
      metrics = \<lparr>runs = 0, total_retrieval_time = 0, total_time = 0\<rparr>,
      tasks = [\<lparr>partial = ''a'', pc = AwaitRetrieval, must_cancel = False, start_ts = 1,
                filler_text = ''Sure.'', contexts = [], retrieval_time = 0,
                final_answer = []\<rparr>]\<rparr>"
  by (simp add: eval_simps)

theorem superseded_run_never_updates_witness:
  "must_cancel (tasks (run quiet_world
       (handle_partial (run quiet_world init [HandlePartial ''a'', Resume 0 1, Resume 0 2]) ''b'')
       [Resume 0 3, Resume 1 4]) ! 0) \<and>
   history (exec quiet_world (run quiet_world
       (handle_partial (run quiet_world init [HandlePartial ''a'', Resume 0 1, Resume 0 2]) ''b'')
       [Resume 0 3, Resume 1 4]) (Resume 0 5)) = []"
proof -
  let ?c0 = "run quiet_world init [HandlePartial ''a'', Resume 0 1, Resume 0 2]"
  have h: "current_task ?c0 = Some 0" "0 < length (tasks ?c0)" "\<not> is_done (tasks ?c0 ! 0)"
    by (simp_all add: quiet_start)
  have e: "history (run quiet_world (handle_partial ?c0 ''b'') [Resume 0 3, Resume 1 4]) = []"
    unfolding quiet_start by (simp add: eval_simps)
  show ?thesis
    using superseded_run_never_updates [OF h, of quiet_world "''b''" "[Resume 0 3, Resume 1 4]" 5] e
    by simp
qed

text \<open>
  C4: the step in which a Run completes appends exactly two entries to the
  history, the Run's transcript and then its final answer; the Run was suspended
  at its last \<open>await\<close> (the join point, after the final playback) and was not
  cancelled; and no other step changes the history.
\<close>

theorem completed_run_appends_two:
  assumes "i < length (tasks c)"
    and "pc (tasks c ! i) \<noteq> Done Completed"
    and "pc (tasks (exec W c (Resume i now)) ! i) = Done Completed"
  shows "history (exec W c (Resume i now))
           = history c @ [partial (tasks c ! i), final_answer (tasks c ! i)] \<and>
         length (history (exec W c (Resume i now))) = length (history c) + 2 \<and>
         pc (tasks c ! i) = AwaitFinalPlay \<and> \<not> must_cancel (tasks c ! i) \<and>
         (\<forall>e. history (exec W c e) \<noteq> history c \<longrightarrow>
            (\<exists>j t. e = Resume j t \<and> j < length (tasks c) \<and> pc (tasks c ! j) = AwaitFinalPlay
               \<and> pc (tasks (exec W c e) ! j) = Done Completed))"
proof -
  have "pc (snd (run_pipeline W now c (tasks c ! i))) = Done Completed"
    using assms(1,3) by (simp add: exec_Resume_task(1))
  with run_pipeline_effect [of "tasks c ! i" W now c] assms(2)
  have "pc (tasks c ! i) = AwaitFinalPlay" "\<not> must_cancel (tasks c ! i)"
    "history (fst (run_pipeline W now c (tasks c ! i)))
       = history c @ [partial (tasks c ! i), final_answer (tasks c ! i)]"
    by auto
  moreover have "\<exists>j t. e = Resume j t \<and> j < length (tasks c) \<and> pc (tasks c ! j) = AwaitFinalPlay
               \<and> pc (tasks (exec W c e) ! j) = Done Completed"
    if "history (exec W c e) \<noteq> history c" for e
    using exec_changes_only_on_completion [of W c e] that by blast
  ultimately show ?thesis
    using assms(1) by (simp add: exec_Resume_task(2))
qed

lemma postprocess_sure: "postprocess_for_voice ''Sure. It works'' 18 = ''Sure. It works''"
  by code_simp

lemma quiet_before_join:
  "run quiet_world init [HandlePartial ''a'', Resume 0 1, Resume 0 2, Resume 0 3, Resume 0 4,
       Resume 0 5] =
     \<lparr>history = [], current_task = Some 0,
      metrics = \<lparr>runs = 0, total_retrieval_time = 0, total_time = 0\<rparr>,
      tasks = [\<lparr>partial = ''a'', pc = AwaitFinalPlay, must_cancel = False, start_ts = 1,
                filler_text = ''Sure.'', contexts = [''d'', ''b''], retrieval_time = 2,
                final_answer = ''Sure. It works''\<rparr>]\<rparr>"
  by (simp add: eval_simps postprocess_sure)

theorem completed_run_appends_two_witness:
  "history (exec quiet_world
      (run quiet_world init [HandlePartial ''a'', Resume 0 1, Resume 0 2, Resume 0 3, Resume 0 4,
         Resume 0 5]) (Resume 0 6)) = [''a'', ''Sure. It works'']"
proof -
  let ?c = "run quiet_world init [HandlePartial ''a'', Resume 0 1, Resume 0 2, Resume 0 3,
         Resume 0 4, Resume 0 5]"
  have h: "0 < length (tasks ?c)" "pc (tasks ?c ! 0) \<noteq> Done Completed"
    "pc (tasks (exec quiet_world ?c (Resume 0 6)) ! 0) = Done Completed"
    unfolding quiet_before_join by (simp_all add: eval_simps)
  show ?thesis
    using completed_run_appends_two [OF h] by (simp add: quiet_before_join)
qed

text \<open>
  A whole Run without interference, in a session whose calls succeed: six
  resumptions take the new task through its five \<open>await\<close>s.
\<close>

lemma exec_Resume_eq:
  "i < length (tasks c) \<Longrightarrow>
     exec W c (Resume i now) =
       (fst (run_pipeline W now c (tasks c ! i)))
         \<lparr>tasks := (tasks c)[i := snd (run_pipeline W now c (tasks c ! i))]\<rparr>"
  using run_pipeline_frame(1) [of W now c "tasks c ! i"]
  by (simp add: exec.simps case_prod_unfold)

lemma uninterrupted_run:
  assumes "get_llm_response W (filler_prompt p) = Inr f"
    and "retrieve_and_rerank W (history c) p = Inr ctxs"
    and "get_llm_response W (final_prompt ctxs p) = Inr answer"
    and "w_tts W (postprocess_for_voice answer 18) = Inr u"
    and "n = length (tasks c)"
    and "c' = run W (handle_partial c p)
                [Resume n t0, Resume n t1, Resume n t2, Resume n t3, Resume n t4, Resume n t5]"
  shows "history c' = history c @ [p, postprocess_for_voice answer 18] \<and>
         runs (metrics c') = runs (metrics c) + 1 \<and>
         contexts (tasks c' ! n) = ctxs \<and>
         pc (tasks c' ! n) = Done Completed"
proof -
  define c0 where "c0 = handle_partial c p"
  have 0: "n < length (tasks c0)" "tasks c0 ! n = new_task p" "history c0 = history c"
    "metrics c0 = metrics c"
    using assms(5) by (simp_all add: c0_def handle_partial_frame)
  define c1 where "c1 = exec W c0 (Resume n t0)"
  have 1: "n < length (tasks c1)" "history c1 = history c" "metrics c1 = metrics c"
    "tasks c1 ! n = (new_task p)\<lparr>start_ts := t0, pc := AwaitFillerLLM\<rparr>"
    using 0 by (simp_all add: c1_def exec_Resume_eq run_pipeline_def new_task_def)
  define c2 where "c2 = exec W c1 (Resume n t1)"
  have 2: "n < length (tasks c2)" "history c2 = history c" "metrics c2 = metrics c"
    "tasks c2 ! n = (new_task p)\<lparr>start_ts := t0,
        filler_text := takeWhile (\<lambda>x. x \<noteq> CHR ''.'') f @ ''.'', pc := AwaitRetrieval\<rparr>"
    using 1 assms(1) by (simp_all add: c2_def exec_Resume_eq run_pipeline_def new_task_def)
  define c3 where "c3 = exec W c2 (Resume n t2)"
  have 3: "n < length (tasks c3)" "history c3 = history c" "metrics c3 = metrics c"
    "tasks c3 ! n = (new_task p)\<lparr>start_ts := t0,
        filler_text := takeWhile (\<lambda>x. x \<noteq> CHR ''.'') f @ ''.'',
        contexts := ctxs, retrieval_time := t2 - t0,
        pc := AwaitFinalLLM\<rparr>"
    using 2 assms(2) by (simp_all add: c3_def exec_Resume_eq run_pipeline_def new_task_def)
  define c4 where "c4 = exec W c3 (Resume n t3)"
  have 4: "n < length (tasks c4)" "history c4 = history c" "metrics c4 = metrics c"
    "tasks c4 ! n = (new_task p)\<lparr>start_ts := t0,
        filler_text := takeWhile (\<lambda>x. x \<noteq> CHR ''.'') f @ ''.'',
        contexts := ctxs, retrieval_time := t2 - t0,
        final_answer := postprocess_for_voice answer 18, pc := AwaitFillerPlay\<rparr>"
    using 3 assms(3) by (simp_all add: c4_def exec_Resume_eq run_pipeline_def new_task_def)
  define c5 where "c5 = exec W c4 (Resume n t4)"
  have 5: "n < length (tasks c5)" "history c5 = history c" "metrics c5 = metrics c"
    "tasks c5 ! n = (new_task p)\<lparr>start_ts := t0,
        filler_text := takeWhile (\<lambda>x. x \<noteq> CHR ''.'') f @ ''.'',
        contexts := ctxs, retrieval_time := t2 - t0,
        final_answer := postprocess_for_voice answer 18, pc := AwaitFinalPlay\<rparr>"
    using 4 by (simp_all add: c5_def exec_Resume_eq run_pipeline_def new_task_def split: sum.splits)
  define c6 where "c6 = exec W c5 (Resume n t5)"
  have 6: "history c6 = history c @ [p, postprocess_for_voice answer 18]"
    "runs (metrics c6) = runs (metrics c) + 1"
    "contexts (tasks c6 ! n) = ctxs"
    "pc (tasks c6 ! n) = Done Completed"
    using 5 assms(4)
    by (simp_all add: c6_def exec_Resume_eq run_pipeline_def new_task_def add_def)
  have "c' = c6"
    unfolding assms(6) c6_def c5_def c4_def c3_def c2_def c1_def c0_def
    by (simp add: run_Cons run_Nil)
  with 6 show ?thesis by simp
qed

lemma retrieval_failure_aborts_run:
  assumes "pc t = AwaitRetrieval" and "\<not> must_cancel t"
    and "retrieve_and_rerank W (history c) (partial t) = Inl e"
  shows "run_pipeline W now c t = (c, t\<lparr>pc := Done (Failed e)\<rparr>)"
  using assms by (simp add: run_pipeline_def)

lemma filler_playback_failure_swallowed:
  assumes "pc t = AwaitFillerPlay" and "\<not> must_cancel t"
  shows "run_pipeline W now c t = (c, t\<lparr>pc := AwaitFinalPlay\<rparr>)"
  using assms by (simp add: run_pipeline_def split: sum.splits)

text \<open>
  C3: no failure of an external call aborts a Run. The playback of the filler is
  guarded and an unavailable client yields a sentinel text, but the completion
  call itself is not guarded: when it raises for the filler prompt, the exception
  ends the task. The Run is not cancelled, never produces a final answer and
  never reaches the history; further resumptions change nothing.
\<close>

theorem llm_failure_aborts_run:
  "pc (tasks (run failing_world init [HandlePartial ''hi'', Resume 0 0, Resume 0 1]) ! 0)
     = Done (Failed (ExternalError ''timeout'')) \<and>
   \<not> must_cancel (tasks (run failing_world init [HandlePartial ''hi'', Resume 0 0, Resume 0 1]) ! 0) \<and>
   history (run failing_world init [HandlePartial ''hi'', Resume 0 0, Resume 0 1]) = [] \<and>
   run failing_world init [HandlePartial ''hi'', Resume 0 0, Resume 0 1, Resume 0 2]
     = run failing_world init [HandlePartial ''hi'', Resume 0 0, Resume 0 1]"
  by (simp add: eval_simps)

section \<open>Properties of the voice postprocessing\<close>

lemma isspace_space [simp]: "isspace (CHR '' '')"
  by (simp add: isspace_def)

lemma spaced_simps [simp]: "spaced [] = []" "spaced (w # ws) = CHR '' '' # w @ spaced ws"
  by (simp_all add: spaced_def)

lemma join_sp: "join '' '' (w # ws) = w @ spaced ws"
  by (induction ws arbitrary: w) simp_all

lemma split_ws_append:
  "\<forall>c\<in>set t. \<not> isspace c \<Longrightarrow> split_ws cur (t @ rest) = split_ws (cur @ t) rest"
  by (induction t arbitrary: cur) simp_all

lemma split_ws_sp:
  "cur \<noteq> [] \<Longrightarrow> list_all tok ws \<Longrightarrow> split_ws cur (spaced ws) = cur # ws"
proof (induction ws arbitrary: cur)
  case Nil
  then show ?case by simp
next
  case (Cons w ws)
  then have "tok w" and ws: "list_all tok ws"
    by simp_all
  then have w: "w \<noteq> []" "\<forall>c\<in>set w. \<not> isspace c"
    by (simp_all add: tok_def)
  from Cons.prems(1) have "split_ws cur (spaced (w # ws)) = cur # split_ws [] (w @ spaced ws)"
    by simp
  also have "split_ws [] (w @ spaced ws) = split_ws w (spaced ws)"
    using split_ws_append [OF w(2), of "[]"] by simp
  also have "\<dots> = w # ws"
    using Cons.IH [OF w(1) ws] .
  finally show ?case .
qed

lemma py_split_join: "list_all tok ws \<Longrightarrow> py_split (join '' '' ws) = ws"
proof (cases ws)
  case Nil
  then show ?thesis by (simp add: py_split_def)
next
  case (Cons w ws')
  assume "list_all tok ws"
  with Cons have "tok w" and ws: "list_all tok ws'"
    by simp_all
  then have w: "w \<noteq> []" "\<forall>c\<in>set w. \<not> isspace c"
    by (simp_all add: tok_def)
  show ?thesis
    unfolding Cons join_sp py_split_def
    using split_ws_append [OF w(2), of "[]" "spaced ws'"] split_ws_sp [OF w(1) ws] by simp
qed

lemma split_ws_toks:
  "\<forall>c\<in>set cur. \<not> isspace c \<Longrightarrow> list_all tok (split_ws cur s)"
  by (induction s arbitrary: cur) (auto simp: tok_def)

lemma py_split_toks: "list_all tok (py_split s)"
  by (simp add: py_split_def split_ws_toks)

lemma split_ws_takeWhile:
  "cur @ takeWhile (\<lambda>c. \<not> isspace c) s \<noteq> [] \<Longrightarrow>
     split_ws cur s = (cur @ takeWhile (\<lambda>c. \<not> isspace c) s)
                        # split_ws [] (dropWhile (\<lambda>c. \<not> isspace c) s)"
  by (induction s arbitrary: cur) auto

lemma split_ws_dropWhile: "split_ws [] (dropWhile isspace s) = split_ws [] s"
  by (induction s) auto

lemma re_sub_ws_takeWhile:
  "re_sub_ws s = takeWhile (\<lambda>c. \<not> isspace c) s @ re_sub_ws (dropWhile (\<lambda>c. \<not> isspace c) s)"
  by (induction s) auto

lemma re_sub_ws_words:
  "s = [] \<or> \<not> isspace (hd s) \<Longrightarrow> re_sub_ws s = join '' '' (py_split s) @ trailing s"
proof (induction "length s" arbitrary: s rule: less_induct)
  case less
  show ?case
  proof (cases s)
    case Nil
    then show ?thesis by (simp add: py_split_def trailing_def)
  next
    case (Cons c cs)
    with less.prems have c: "\<not> isspace c" by simp
    define t where "t = takeWhile (\<lambda>c. \<not> isspace c) s"
    define r where "r = dropWhile (\<lambda>c. \<not> isspace c) s"
    have s: "s = t @ r" by (simp add: t_def r_def)
    have t: "t \<noteq> []" using Cons c by (simp add: t_def)
    have tl: "\<not> isspace (last t)"
      using t unfolding t_def by (metis (mono_tags, lifting) last_in_set set_takeWhileD)
    have sub: "re_sub_ws s = t @ re_sub_ws r"
      unfolding t_def r_def by (rule re_sub_ws_takeWhile)
    have spl: "py_split s = t # py_split r"
      unfolding py_split_def t_def r_def using t [unfolded t_def]
      by (intro split_ws_takeWhile [of "[]" s, simplified]) simp
    show ?thesis
    proof (cases r)
      case Nil
      with sub spl s t tl show ?thesis by (simp add: py_split_def trailing_def)
    next
      case rc: (Cons d ds)
      have d: "isspace d"
        using rc unfolding r_def by (metis (full_types) hd_dropWhile list.sel(1) list.simps(3))
      define r' where "r' = dropWhile isspace ds"
      have r'0: "r' = [] \<or> \<not> isspace (hd r')"
        unfolding r'_def by (metis (full_types) hd_dropWhile)
      have len: "length r' < length s"
        unfolding r'_def s rc using length_dropWhile_le [of isspace ds] by simp
      have subr: "re_sub_ws r = CHR '' '' # re_sub_ws r'"
        using d by (simp add: rc r'_def)
      have splr: "py_split r = py_split r'"
        using d by (simp add: rc r'_def py_split_def split_ws_dropWhile)
      note IH = less.hyps [OF len r'0]
      show ?thesis
      proof (cases r')
        case Nil
        then have "\<forall>x\<in>set ds. isspace x"
          unfolding r'_def by (simp add: dropWhile_eq_Nil_conv)
        then have "isspace (last s)"
          unfolding s rc using d by (cases ds rule: rev_cases) auto
        with Nil sub subr spl splr show ?thesis
          using s rc by (simp add: py_split_def trailing_def)
      next
        case r'c: (Cons e es)
        with r'0 have e: "\<not> isspace e" by simp
        have ne: "py_split r' \<noteq> []"
          unfolding py_split_def r'c
          using split_ws_takeWhile [of "[]" "e # es"] e by simp
        then obtain u us where u: "py_split r' = u # us" by (cases "py_split r'") auto
        have "\<exists>pre. s = pre @ r'"
          unfolding s rc r'_def
          by (metis append.assoc append_Cons takeWhile_dropWhile_id)
        then have last: "last s = last r'" using r'c by auto
        have "trailing s = trailing r'"
          using last r'c Cons by (simp add: trailing_def)
        with sub subr spl splr IH u show ?thesis by simp
      qed
    qed
  qed
qed

lemma join_Cons_ne: "q \<noteq> [] \<Longrightarrow> join sep (q # ps) \<noteq> []"
  by (cases ps) auto

lemma last_join:
  "ws \<noteq> [] \<Longrightarrow> \<forall>w\<in>set ws. w \<noteq> [] \<Longrightarrow> last (join sep ws) = last (last ws)"
  by (induction sep ws rule: join.induct) (auto simp: join_Cons_ne)

lemma join_eq_Nil: "\<forall>w\<in>set ws. w \<noteq> [] \<Longrightarrow> join sep ws = [] \<longleftrightarrow> ws = []"
  by (induction sep ws rule: join.induct) auto

lemma hd_join: "ws \<noteq> [] \<Longrightarrow> hd ws \<noteq> [] \<Longrightarrow> hd (join sep ws) = hd (hd ws)"
  by (induction sep ws rule: join.induct) auto

lemma join_toks_ends:
  assumes "list_all tok ws" "ws \<noteq> []"
  shows "join '' '' ws \<noteq> []" "\<not> isspace (hd (join '' '' ws))" "\<not> isspace (last (join '' '' ws))"
proof -
  from assms have ne: "\<forall>w\<in>set ws. w \<noteq> []" and h: "tok (hd ws)" and l: "tok (last ws)"
    by (auto simp: list_all_iff tok_def)
  from ne assms(2) show "join '' '' ws \<noteq> []" by (simp add: join_eq_Nil)
  from h assms(2) show "\<not> isspace (hd (join '' '' ws))"
    by (simp add: hd_join tok_def)
  from l assms(2) ne show "\<not> isspace (last (join '' '' ws))"
    by (simp add: last_join tok_def)
qed

lemma strip_core:
  assumes "J = [] \<or> (\<not> isspace (hd J) \<and> \<not> isspace (last J))"
    and "\<forall>c\<in>set a. isspace c" and "\<forall>c\<in>set b. isspace c"
  shows "strip (a @ J @ b) = J"
proof (cases "J = []")
  case True
  have "\<forall>c\<in>set (a @ b). isspace c"
    using assms(2,3) by auto
  then have "dropWhile isspace (a @ b) = []"
    by (simp only: dropWhile_eq_Nil_conv)
  then have "strip (a @ b) = []"
    by (simp only: strip_def rev.simps dropWhile.simps)
  with True show ?thesis
    by simp
next
  case False
  with assms(1) have h: "\<not> isspace (hd J)" and l: "\<not> isspace (last J)" by simp_all
  from False h have 1: "dropWhile isspace (a @ J @ b) = J @ b"
    using assms(2) by (cases J) (simp_all add: dropWhile_append)
  from False l have 2: "dropWhile isspace (rev b @ rev J) = rev J"
    using assms(3) by (cases J rule: rev_cases) (simp_all add: dropWhile_append)
  show ?thesis by (simp add: strip_def 1 2)
qed

lemma trailing_ws: "\<forall>c\<in>set (trailing s). isspace c"
  by (simp add: trailing_def)

lemma normalise_words: "strip (re_sub_ws s) = join '' '' (py_split s)"
proof -
  have J: "join '' '' (py_split s) = [] \<or>
     (\<not> isspace (hd (join '' '' (py_split s))) \<and> \<not> isspace (last (join '' '' (py_split s))))" for s
    using join_toks_ends [OF py_split_toks, of s] by (cases "py_split s = []") simp_all
  show ?thesis
  proof (cases "s = [] \<or> \<not> isspace (hd s)")
    case True
    show ?thesis
      unfolding re_sub_ws_words [OF True]
      using strip_core [OF J [of s] _ trailing_ws, of "[]" s] by simp
  next
    case False
    then obtain c cs where s: "s = c # cs" and c: "isspace c" by (cases s) auto
    define s' where "s' = dropWhile isspace cs"
    have s'0: "s' = [] \<or> \<not> isspace (hd s')"
      unfolding s'_def by (metis (full_types) hd_dropWhile)
    have "re_sub_ws s = '' '' @ join '' '' (py_split s') @ trailing s'"
      using c re_sub_ws_words [OF s'0] by (simp add: s s'_def)
    moreover have "py_split s = py_split s'"
      using c by (simp add: s s'_def py_split_def split_ws_dropWhile)
    ultimately show ?thesis
      using strip_core [OF J [of s'] _ trailing_ws, of "'' ''" s'] by simp
  qed
qed

lemma not_space_not_ws: "\<not> isspace c \<Longrightarrow> c \<noteq> CHR '' ''"
  by auto

lemma re_split_append:
  "\<forall>c\<in>set t. c \<noteq> CHR '' '' \<Longrightarrow>
     re_split_sentences cur (t @ rest) = re_split_sentences (cur @ t) rest"
  by (induction t arbitrary: cur) simp_all

lemma tok_no_space: "tok t \<Longrightarrow> \<forall>c\<in>set t. c \<noteq> CHR '' ''"
  by (auto simp: tok_def)

lemma join_snoc: "cur \<noteq> [] \<Longrightarrow> join sep (cur @ [w]) = join sep cur @ sep @ w"
  by (induction sep cur rule: join.induct) auto

lemma re_split_groups:
  "cur \<noteq> [] \<Longrightarrow> list_all tok cur \<Longrightarrow> list_all tok ws \<Longrightarrow>
     re_split_sentences (join '' '' cur) (spaced ws) = map (join '' '') (groups cur ws)"
proof (induction ws arbitrary: cur)
  case Nil
  then show ?case by simp
next
  case (Cons w ws)
  from Cons.prems have w: "tok w" and ws: "list_all tok ws" by simp_all
  from w have wne: "w \<noteq> []"
    by (simp add: tok_def)
  with tok_no_space [OF w] have wh: "hd w \<noteq> CHR '' ''"
    by (cases w) simp_all
  from Cons.prems have ne: "\<forall>x\<in>set cur. x \<noteq> []"
    by (auto simp: list_all_iff tok_def)
  have J: "join '' '' cur \<noteq> []" "last (join '' '' cur) = last (last cur)"
    using Cons.prems(1) ne by (simp_all add: join_eq_Nil last_join)
  have dw: "dropWhile (\<lambda>x. x = CHR '' '') (w @ spaced ws) = w @ spaced ws"
    using wne wh by (cases w) simp_all
  show ?case
  proof (cases "sentence_end (last (last cur))")
    case True
    have "re_split_sentences (join '' '' cur) (spaced (w # ws))
        = join '' '' cur # re_split_sentences [] (w @ spaced ws)"
      using True J dw by simp
    also have "re_split_sentences [] (w @ spaced ws) = re_split_sentences (join '' '' [w]) (spaced ws)"
      using re_split_append [OF tok_no_space [OF w], of "[]" "spaced ws"] by simp
    also have "\<dots> = map (join '' '') (groups [w] ws)"
      using w ws by (intro Cons.IH) simp_all
    finally show ?thesis using True by simp
  next
    case False
    have "re_split_sentences (join '' '' cur) (spaced (w # ws))
        = re_split_sentences (join '' '' cur @ '' '') (w @ spaced ws)"
      using False J by simp
    also have "\<dots> = re_split_sentences (join '' '' (cur @ [w])) (spaced ws)"
      using re_split_append [OF tok_no_space [OF w], of "join '' '' cur @ '' ''" "spaced ws"]
        Cons.prems(1) by (simp add: join_snoc)
    also have "\<dots> = map (join '' '') (groups (cur @ [w]) ws)"
      using Cons.prems w ws by (intro Cons.IH) simp_all
    finally show ?thesis using False by simp
  qed
qed

lemma re_split_join:
  assumes "list_all tok (w # ws)"
  shows "re_split_sentences [] (join '' '' (w # ws)) = map (join '' '') (groups [w] ws)"
proof -
  from assms have w: "tok w" and ws: "list_all tok ws" by simp_all
  have "re_split_sentences [] (w @ spaced ws) = re_split_sentences (join '' '' [w]) (spaced ws)"
    using re_split_append [OF tok_no_space [OF w], of "[]" "spaced ws"] by simp
  also have "\<dots> = map (join '' '') (groups [w] ws)"
    using w ws by (intro re_split_groups) simp_all
  finally show ?thesis by (simp add: join_sp)
qed

lemma groups_append:
  "cur \<noteq> [] \<Longrightarrow> \<forall>w\<in>set (butlast (cur @ g)). \<not> sentence_end (last w) \<Longrightarrow>
     groups cur (g @ rest) = groups (cur @ g) rest"
proof (induction g arbitrary: cur)
  case Nil
  then show ?case by simp
next
  case (Cons w g)
  from Cons.prems have "\<not> sentence_end (last (last cur))"
    by (simp add: butlast_append)
  moreover have "groups (cur @ [w]) (g @ rest) = groups ((cur @ [w]) @ g) rest"
    using Cons.prems by (intro Cons.IH) simp_all
  ultimately show ?case by simp
qed

lemma groups_concat:
  "well_grouped G \<Longrightarrow> open_group g \<Longrightarrow> (G \<noteq> [] \<longrightarrow> sentence_end (last (last g))) \<Longrightarrow>
     groups g (concat G) = g # G"
proof (induction G arbitrary: g)
  case Nil
  then show ?case by simp
next
  case (Cons h G)
  from Cons.prems(1) have h: "open_group h" and hG: "G \<noteq> [] \<longrightarrow> sentence_end (last (last h))"
    and G: "well_grouped G" by simp_all
  from h obtain x xs where hx: "h = x # xs" by (cases h) (auto simp: open_group_def)
  from Cons.prems(3) have e: "sentence_end (last (last g))" by simp
  have "groups g (concat (h # G)) = g # groups [x] (xs @ concat G)"
    using e by (simp add: hx)
  also have "groups [x] (xs @ concat G) = groups ([x] @ xs) (concat G)"
    using h by (intro groups_append) (simp_all add: hx open_group_def)
  also have "\<dots> = h # G"
    using Cons.IH [OF G h hG] by (simp add: hx)
  finally show ?case .
qed

lemma well_grouped_groups: "open_group cur \<Longrightarrow> well_grouped (groups cur ws)"
proof (induction ws arbitrary: cur)
  case Nil
  then show ?case by simp
next
  case (Cons w ws)
  show ?case
  proof (cases "sentence_end (last (last cur))")
    case True
    have "well_grouped (groups [w] ws)"
      by (intro Cons.IH) (simp add: open_group_def)
    with True Cons.prems show ?thesis by simp
  next
    case False
    from Cons.prems have ne: "cur \<noteq> []"
      and bl: "\<forall>x\<in>set (butlast cur). \<not> sentence_end (last x)"
      by (simp_all add: open_group_def)
    from ne have "set cur = set (butlast cur) \<union> {last cur}"
      using append_butlast_last_id [OF ne] by (metis Un_insert_right list.set(1) list.set(2) set_append sup_bot.right_neutral)
    with bl False have "\<forall>x\<in>set cur. \<not> sentence_end (last x)"
      by auto
    then have "open_group (cur @ [w])"
      by (simp add: open_group_def)
    from Cons.IH [OF this] False show ?thesis by simp
  qed
qed

lemma concat_groups: "concat (groups cur ws) = cur @ ws"
  by (induction ws arbitrary: cur) simp_all

lemma groups_ne: "groups cur ws \<noteq> []"
  by (induction ws arbitrary: cur) simp_all

lemma well_grouped_open: "well_grouped G \<Longrightarrow> g \<in> set G \<Longrightarrow> open_group g"
  by (induction G) auto

lemma groups_toks:
  assumes "list_all tok cur" "list_all tok ws" "g \<in> set (groups cur ws)"
  shows "list_all tok g"
proof -
  from assms(3) have "set g \<subseteq> set (concat (groups cur ws))" by auto
  with assms(1,2) show ?thesis
    by (auto simp: concat_groups list_all_iff)
qed

lemma truncate_group_idem: "truncate_group m (truncate_group m g) = truncate_group m g"
  by (cases "m = 0") (auto simp: truncate_group_def)

lemma tok_dots: "tok t \<Longrightarrow> tok (t @ ''...'')"
  by (simp add: tok_def isspace_def)

lemma tok_dots0: "tok ''...''"
  by (simp add: tok_def isspace_def)

lemma truncate_group_toks:
  assumes "list_all tok g"
  shows "list_all tok (truncate_group m g)"
proof (cases "length g > m \<and> m \<noteq> 0")
  case True
  then have ne: "take m g \<noteq> []" by auto
  have t: "list_all tok (take m g)"
    using assms by (auto simp: list_all_iff dest: in_set_takeD)
  then have "list_all tok (butlast (take m g))" "tok (last (take m g))"
    using ne by (auto simp: list_all_iff dest: in_set_butlastD)
  with True show ?thesis by (simp add: truncate_group_def tok_dots)
next
  case False
  with assms show ?thesis by (auto simp: truncate_group_def tok_dots0)
qed

lemma butlast_take_subset:
  assumes "m < length g" "m \<noteq> 0"
  shows "set (butlast (take m g)) \<subseteq> set (butlast g)"
proof -
  have "butlast (take m g) = take (m - 1) g"
    using assms by (simp add: butlast_take)
  also have "\<dots> = take (m - 1) (butlast g)"
    using assms by (simp add: take_butlast)
  finally show ?thesis
    by (simp add: set_take_subset)
qed

lemma truncate_group_open:
  assumes "open_group g"
  shows "open_group (truncate_group m g)"
proof (cases "length g > m \<and> m \<noteq> 0")
  case True
  then have "set (butlast (take m g)) \<subseteq> set (butlast g)"
    by (simp add: butlast_take_subset)
  moreover from assms have "\<forall>w\<in>set (butlast g). \<not> sentence_end (last w)"
    by (simp add: open_group_def)
  ultimately have "\<forall>w\<in>set (butlast (take m g)). \<not> sentence_end (last w)"
    by blast
  with True show ?thesis by (simp add: truncate_group_def open_group_def)
next
  case False
  with assms show ?thesis by (auto simp: truncate_group_def open_group_def)
qed

lemma truncate_group_end:
  assumes "sentence_end (last (last g))"
  shows "sentence_end (last (last (truncate_group m g)))"
  using assms by (simp add: truncate_group_def sentence_end_def)

lemma well_grouped_map_truncate: "well_grouped G \<Longrightarrow> well_grouped (map (truncate_group m) G)"
  by (induction G) (simp_all add: truncate_group_open truncate_group_end)

lemma join_Cons: "xs \<noteq> [] \<Longrightarrow> join sep (p # xs) = p @ sep @ join sep xs"
  by (cases xs) simp_all

lemma join_snoc_suffix: "g \<noteq> [] \<Longrightarrow> join sep g @ s = join sep (butlast g @ [last g @ s])"
proof (induction g)
  case Nil
  then show ?case by simp
next
  case (Cons p g)
  show ?case
  proof (cases "g = []")
    case True
    then show ?thesis by simp
  next
    case False
    with Cons.IH show ?thesis by (simp add: join_Cons)
  qed
qed

lemma join_append:
  "xs \<noteq> [] \<Longrightarrow> ys \<noteq> [] \<Longrightarrow> join sep (xs @ ys) = join sep xs @ sep @ join sep ys"
proof (induction xs)
  case Nil
  then show ?case by simp
next
  case (Cons x xs)
  show ?case
  proof (cases "xs = []")
    case True
    with Cons.prems show ?thesis by (simp add: join_Cons)
  next
    case False
    with Cons show ?thesis by (simp add: join_Cons)
  qed
qed

lemma join_concat:
  "\<forall>g\<in>set Gs. g \<noteq> [] \<Longrightarrow> join sep (map (join sep) Gs) = join sep (concat Gs)"
proof (induction Gs)
  case Nil
  then show ?case by simp
next
  case (Cons g Gs)
  show ?case
  proof (cases Gs)
    case Nil
    then show ?thesis by simp
  next
    case (Cons h Hs)
    from Cons.prems Cons have "concat Gs \<noteq> []" by auto
    with Cons.prems Cons.IH Cons show ?thesis
      by (simp add: join_append)
  qed
qed

lemma truncate_join:
  assumes "list_all tok g" "g \<noteq> []" "0 \<le> n"
  shows "truncate_sentence n (join '' '' g) = join '' '' (truncate_group (nat n) g)"
proof (cases "int (length g) > n")
  case False
  with assms(3) have "\<not> length g > nat n" by linarith
  with False assms show ?thesis
    by (simp add: truncate_sentence_def py_split_join truncate_group_def)
next
  case True
  with assms(3) have len: "length g > nat n" by simp
  have t: "truncate_sentence n (join '' '' g) = join '' '' (take (nat n) g) @ ''...''"
    using True assms by (simp add: truncate_sentence_def py_split_join slice_to_def)
  show ?thesis
  proof (cases "nat n = 0")
    case True
    with t len show ?thesis by (simp add: truncate_group_def)
  next
    case False
    with len have "take (nat n) g \<noteq> []" by auto
    from join_snoc_suffix [OF this, of "'' ''" "''...''"] t len False
    show ?thesis by (simp add: truncate_group_def)
  qed
qed

lemma shorten_toks:
  assumes "list_all tok ws"
  shows "list_all tok (shorten m ws)"
proof (cases ws)
  case Nil
  then show ?thesis by (simp add: shorten_def)
next
  case (Cons w ws')
  with assms have "\<forall>g\<in>set (groups [w] ws'). list_all tok g"
    using groups_toks [of "[w]" ws'] by simp
  then have "\<forall>g\<in>set (groups [w] ws'). list_all tok (truncate_group m g)"
    by (simp add: truncate_group_toks)
  then show ?thesis
    by (auto simp: shorten_def Cons list_all_iff)
qed

lemma postprocess_tokens:
  assumes "list_all tok ws" "0 \<le> n"
  shows "join '' '' (map (truncate_sentence n) (re_split_sentences [] (join '' '' ws)))
           = join '' '' (shorten (nat n) ws)"
proof (cases ws)
  case Nil
  with assms(2) show ?thesis
    by (simp add: shorten_def truncate_sentence_def py_split_def)
next
  case (Cons w ws')
  define G where "G = groups [w] ws'"
  have ch: "well_grouped G"
    unfolding G_def by (intro well_grouped_groups) (simp add: open_group_def)
  have tk: "list_all tok g" if "g \<in> set G" for g
    using groups_toks [of "[w]" ws' g] that assms(1) by (simp add: G_def Cons)
  have ne: "g \<noteq> []" if "g \<in> set G" for g
    using well_grouped_open [OF ch that] by (simp add: open_group_def)
  have "map (truncate_sentence n) (re_split_sentences [] (join '' '' ws))
      = map (\<lambda>g. truncate_sentence n (join '' '' g)) G"
    using re_split_join [of w ws'] assms(1) by (simp add: Cons G_def comp_def)
  also have "\<dots> = map (join '' '') (map (truncate_group (nat n)) G)"
    using tk ne assms(2) by (simp add: truncate_join)
  finally have "join '' '' (map (truncate_sentence n) (re_split_sentences [] (join '' '' ws)))
      = join '' '' (map (join '' '') (map (truncate_group (nat n)) G))"
    by simp
  also have "\<dots> = join '' '' (concat (map (truncate_group (nat n)) G))"
  proof (rule join_concat)
    show "\<forall>g\<in>set (map (truncate_group (nat n)) G). g \<noteq> []"
      using well_grouped_open [OF well_grouped_map_truncate [OF ch, of "nat n"]] by (auto simp: open_group_def)
  qed
  finally show ?thesis
    by (simp add: shorten_def Cons G_def)
qed

lemma shorten_idem: "shorten m (shorten m ws) = shorten m ws"
proof (cases ws)
  case Nil
  then show ?thesis by (simp add: shorten_def)
next
  case (Cons w ws')
  define G where "G = map (truncate_group m) (groups [w] ws')"
  have ch: "well_grouped G"
    unfolding G_def by (intro well_grouped_map_truncate well_grouped_groups) (simp add: open_group_def)
  have "G \<noteq> []" by (simp add: G_def groups_ne)
  then obtain g G' where G: "G = g # G'" by (cases G) auto
  with ch have g: "open_group g" and gG: "G' \<noteq> [] \<longrightarrow> sentence_end (last (last g))"
    and G': "well_grouped G'" by simp_all
  from g obtain x xs where gx: "g = x # xs" by (cases g) (auto simp: open_group_def)
  have s: "shorten m ws = x # (xs @ concat G')"
    using G by (simp add: shorten_def Cons G_def [symmetric] gx)
  have "groups [x] (xs @ concat G') = groups ([x] @ xs) (concat G')"
    using g by (intro groups_append) (simp_all add: gx open_group_def)
  also have "\<dots> = G"
    using groups_concat [OF G' g gG] by (simp add: gx G)
  finally have gr: "groups [x] (xs @ concat G') = G" .
  have "shorten m (shorten m ws) = shorten m (x # (xs @ concat G'))"
    by (simp only: s)
  also have "\<dots> = concat (map (truncate_group m) G)"
    by (simp add: shorten_def gr)
  also have "map (truncate_group m) G = G"
    by (simp add: G_def truncate_group_idem)
  also have "concat G = shorten m ws"
    by (simp add: shorten_def Cons G_def)
  finally show ?thesis .
qed

lemma postprocess_shorten:
  assumes "0 \<le> n"
  shows "postprocess_for_voice s n = join '' '' (shorten (nat n) (py_split s))"
  using postprocess_tokens [OF py_split_toks assms, of s]
  by (simp add: postprocess_for_voice_def normalise_words)

text \<open>
  C8, amended: for every text and every bound \<open>max_sentence_words \<ge> 0\<close>, applying
  \<open>postprocess_for_voice\<close> twice with that bound gives exactly the string that
  applying it once gives.
\<close>

theorem postprocess_idempotent:
  assumes "0 \<le> max_sentence_words"
  shows "postprocess_for_voice (postprocess_for_voice s max_sentence_words) max_sentence_words
           = postprocess_for_voice s max_sentence_words"
proof -
  let ?m = "nat max_sentence_words"
  have "py_split (join '' '' (shorten ?m (py_split s))) = shorten ?m (py_split s)"
    by (intro py_split_join shorten_toks py_split_toks)
  then show ?thesis
    by (simp add: postprocess_shorten [OF assms] shorten_idem)
qed

theorem postprocess_idempotent_witness:
  "postprocess_for_voice (postprocess_for_voice ''One two three four. Five!  six'' 3) 3
     = ''One two three... Five! six''"
proof -
  have h: "(0::int) \<le> 3" by simp
  have "postprocess_for_voice ''One two three four. Five!  six'' 3 = ''One two three... Five! six''"
    by code_simp
  with postprocess_idempotent [OF h, of "''One two three four. Five!  six''"]
  show ?thesis by simp
qed

text \<open>
  C8, as stated for every bound: with a negative bound \<open>words[:max_sentence_words]\<close>
  drops words from the end, every sentence counts as too long, and each pass cuts
  one more word.
\<close>

theorem postprocess_negative_bound:
  "postprocess_for_voice ''a b c'' (- 1) = ''a b...'' \<and>
   postprocess_for_voice (postprocess_for_voice ''a b c'' (- 1)) (- 1) = ''a...'' \<and>
   postprocess_for_voice (postprocess_for_voice ''a b c'' (- 1)) (- 1)
     \<noteq> postprocess_for_voice ''a b c'' (- 1)"
proof -
  have 1: "postprocess_for_voice ''a b c'' (- 1) = ''a b...''" by code_simp
  have 2: "postprocess_for_voice ''a b...'' (- 1) = ''a...''" by code_simp
  show ?thesis by (simp add: 1 2)
qed

end
